theory Spec2Isabelle
  imports Main "HOL-Library.Word"
begin

section \<open>Chunk storage: bytes, numbers and the backing file\<close>

text \<open>
  The embedding follows \<^verbatim>\<open>src/background/chunk-storage.ts\<close>.

  \<^item> A \<^verbatim>\<open>Uint8Array\<close> or \<^verbatim>\<open>ArrayBuffer\<close> is a list of bytes.
  \<^item> A JavaScript \<^verbatim>\<open>number\<close> holding a position, a size or a count is a natural
    number; the model is exact while these stay below \<open>2 ^ 53\<close>, where Float64
    arithmetic on integers is exact.
  \<^item> An \<^verbatim>\<open>async\<close> function is run from its first statement to its completion in
    one step. What the environment decides (whether a read, a write or a transaction
    succeeds) is an argument of type \<open>io\<close>.
  \<^item> An object used only for its identity (\<^verbatim>\<open>persistSentry = {}\<close>) is a counter:
    a new object is the next number, which differs from every earlier one.
\<close>

type_synonym byte = "8 word"
type_synonym bytes = "byte list"
type_synonym number = nat

datatype error = IoError | RangeError | AssertionError | ConstraintError | NotImplemented

datatype io = IoOk | IoFail

text \<open>
  \<^verbatim>\<open>Float64Array.BYTES_PER_ELEMENT\<close>.
\<close>

definition BYTES :: nat where
  "BYTES = 8"

text \<open>
  The eight bytes of a table entry. The IEEE-754 layout is replaced by the
  little-endian layout of the integer: the code depends only on the width and on
  reading back what was written. Bytes that would decode to a NaN, a negative number
  or a fraction have no counterpart here; every eight bytes are some natural number.
\<close>

fun number_bytes :: "nat \<Rightarrow> number \<Rightarrow> bytes" where
  "number_bytes 0 x = []"
| "number_bytes (Suc k) x = word_of_nat (x mod 256) # number_bytes k (x div 256)"

fun bytes_number :: "bytes \<Rightarrow> number" where
  "bytes_number [] = 0"
| "bytes_number (b # bs) = unat b + 256 * bytes_number bs"

text \<open>
  \<^verbatim>\<open>typedArrayToBuffer(persistenceData)\<close>: the bytes of a \<^verbatim>\<open>Float64Array\<close>.
\<close>

definition typedArrayToBuffer :: "number list \<Rightarrow> bytes" where
  "typedArrayToBuffer xs = concat (map (number_bytes BYTES) xs)"

fun elements :: "nat \<Rightarrow> bytes \<Rightarrow> number list" where
  "elements 0 b = []"
| "elements (Suc n) b = bytes_number (take BYTES b) # elements n (drop BYTES b)"

text \<open>
  \<^verbatim>\<open>new Float64Array(buffer)\<close>: a \<^verbatim>\<open>RangeError\<close> when the byte length is not a
  multiple of eight, otherwise one element per eight bytes.
\<close>

definition Float64Array :: "bytes \<Rightarrow> error + number list" where
  "Float64Array b =
     (if length b mod BYTES \<noteq> 0 then Inl RangeError
      else Inr (elements (length b div BYTES) b))"

text \<open>
  Modelled from the spec: \<^verbatim>\<open>SimpleMutableFile.read(size, position)\<close>
  (\<^verbatim>\<open>util/storage.js\<close> is not part of the sources; the spec lists byte-range read,
  write and truncate on a random-access file handle). A read returns at most \<open>sz\<close>
  bytes from \<open>position\<close>, fewer at the end of the file; the environment may reject
  it.
\<close>

definition file_read :: "io \<Rightarrow> bytes \<Rightarrow> nat \<Rightarrow> nat \<Rightarrow> error + bytes" where
  "file_read env f sz position =
     (case env of IoFail \<Rightarrow> Inl IoError | IoOk \<Rightarrow> Inr (take sz (drop position f)))"

text \<open>
  Modelled from the spec: \<^verbatim>\<open>SimpleMutableFile.write(data, position)\<close>. The bytes
  replace what the file holds from \<open>position\<close> on; a write past the end fills the gap
  with zero bytes; a write that the environment rejects changes nothing.
\<close>

definition file_write :: "io \<Rightarrow> bytes \<Rightarrow> bytes \<Rightarrow> nat \<Rightarrow> error + bytes" where
  "file_write env f data position =
     (case env of
        IoFail \<Rightarrow> Inl IoError
      | IoOk \<Rightarrow> Inr (take position f @ replicate (position - length f) 0 @ data
                    @ drop (position + length data) f))"

text \<open>
  Modelled from the spec: \<^verbatim>\<open>SimpleMutableFile.truncate(size)\<close>. The file is cut to
  \<open>sz\<close> bytes (filled with zero bytes if it was shorter); a truncate that the
  environment rejects changes nothing.
\<close>

definition file_truncate :: "io \<Rightarrow> bytes \<Rightarrow> nat \<Rightarrow> error + bytes" where
  "file_truncate env f sz =
     (case env of
        IoFail \<Rightarrow> Inl IoError
      | IoOk \<Rightarrow> Inr (take sz f @ replicate (sz - length f) 0))"

section \<open>The random-access backend\<close>

text \<open>
  \<^verbatim>\<open>class MutableFileChunkStorage\<close>: the backing file, the sentry that \<^verbatim>\<open>reset\<close>
  replaces, and the persistence table
  \<^verbatim>\<open>[ persistenceData.length - 1, (startPosition, currentSize)... ]\<close>. The field
  \<^verbatim>\<open>file\<close> is \<open>mfile\<close> here, its content.
\<close>

record MutableFileChunkStorage =
  mfile :: bytes
  persistSentry :: nat
  persistenceData :: "number list"

text \<open>
  \<^verbatim>\<open>class ChunkStorageWriter\<close> (its fields; the promise chain is in the section on the
  task queue) and \<^verbatim>\<open>MutableFileChunkStorage.Writer\<close>.
\<close>

record ChunkStorageWriter =
  startPosition :: number
  writtenSize :: number

record MutableFileWriter = ChunkStorageWriter +
  writtenSizeIndex :: nat

text \<open>
  The state of a storage after construction and \<^verbatim>\<open>init\<close>:
  \<^verbatim>\<open>persistenceData = new Float64Array([0])\<close>, over the file that \<^verbatim>\<open>init\<close> opened.
\<close>

definition MutableFile_init :: "bytes \<Rightarrow> MutableFileChunkStorage" where
  "MutableFile_init f = \<lparr>mfile = f, persistSentry = 0, persistenceData = [0]\<rparr>"

text \<open>
  The constructor of \<^verbatim>\<open>MutableFileChunkStorage.Writer\<close>. Both callers pass an index
  inside the table. \<^verbatim>\<open>persistenceData[persistenceIndex + 1]\<close> may lie outside it (a
  loaded table of even length); it is then \<^verbatim>\<open>undefined\<close> and the default value of the
  parameter, \<^verbatim>\<open>writtenSize = 0\<close>, applies.
\<close>

definition MutableFile_Writer :: "MutableFileChunkStorage \<Rightarrow> nat \<Rightarrow> MutableFileWriter" where
  "MutableFile_Writer parent persistenceIndex =
     \<lparr>startPosition = persistenceData parent ! persistenceIndex,
      writtenSize = (if persistenceIndex + 1 < length (persistenceData parent)
                     then persistenceData parent ! (persistenceIndex + 1) else 0),
      writtenSizeIndex = persistenceIndex + 1\<rparr>"

text \<open>
  The loop at the end of \<^verbatim>\<open>load\<close>:
  \<^verbatim>\<open>for (let i = 1; i < this.persistenceData.length; i += 2) result.push(new Writer(this, i))\<close>.
\<close>

definition load_writers :: "MutableFileChunkStorage \<Rightarrow> MutableFileWriter list" where
  "load_writers st =
     map (MutableFile_Writer st) (filter odd [1 ..< length (persistenceData st)])"

text \<open>
  The body of the \<^verbatim>\<open>try\<close> block of \<^verbatim>\<open>load\<close> (\<open>sz\<close> is the source's \<^verbatim>\<open>size\<close>). \<open>Inl e\<close> is an exception, caught by
  the \<^verbatim>\<open>catch\<close>; \<open>Inr None\<close> is an early \<^verbatim>\<open>return []\<close>; \<open>Inr (Some data)\<close> is the
  assignment \<^verbatim>\<open>this.persistenceData = data\<close>. The two reads have their own outcomes.
\<close>

definition load_try :: "io \<Rightarrow> io \<Rightarrow> MutableFileChunkStorage \<Rightarrow> nat \<Rightarrow> error + number list option" where
  "load_try env1 env2 st totalSize =
     (case file_read env1 (mfile st) BYTES totalSize of
        Inl e \<Rightarrow> Inl e
      | Inr b1 \<Rightarrow>
          (case Float64Array b1 of
             Inl e \<Rightarrow> Inl e
           | Inr header \<Rightarrow>
               (case header of
                  [] \<Rightarrow> Inr None
                | sz # _ \<Rightarrow>
                    if sz = 0 then Inr None
                    else
                      (case file_read env2 (mfile st) (BYTES * (sz + 1)) totalSize of
                         Inl e \<Rightarrow> Inl e
                       | Inr b2 \<Rightarrow>
                           (case Float64Array b2 of
                              Inl e \<Rightarrow> Inl e
                            | Inr data \<Rightarrow>
                                if length data \<noteq> sz + 1 then Inr None
                                else if length (persistenceData st) \<noteq> 1 then Inl AssertionError
                                else Inr (Some data))))))"

text \<open>
  \<^verbatim>\<open>load(totalSize)\<close>: the writers returned and the storage afterwards. An exception
  in the \<^verbatim>\<open>try\<close> block is logged and the loop runs over the table as it is.
\<close>

definition MutableFile_load :: "io \<Rightarrow> io \<Rightarrow> MutableFileChunkStorage \<Rightarrow> nat
    \<Rightarrow> MutableFileWriter list \<times> MutableFileChunkStorage" where
  "MutableFile_load env1 env2 st totalSize =
     (case load_try env1 env2 st totalSize of
        Inr None \<Rightarrow> ([], st)
      | Inr (Some data) \<Rightarrow>
          (let st' = st\<lparr>persistenceData := data\<rparr> in (load_writers st', st'))
      | Inl e \<Rightarrow> (load_writers st, st))"

text \<open>
  \<^verbatim>\<open>writer(startPosition)\<close>:
  the table grows by \<^verbatim>\<open>[startPosition, 0]\<close>, \<^verbatim>\<open>persistenceData[0] += 2\<close>, and the new
  writer is built on the old length.
\<close>

definition MutableFile_writer :: "MutableFileChunkStorage \<Rightarrow> number
    \<Rightarrow> MutableFileWriter \<times> MutableFileChunkStorage" where
  "MutableFile_writer st sp =
     (let persistenceIndex = length (persistenceData st);
          grown = persistenceData st @ [sp, 0];
          st' = st\<lparr>persistenceData := grown[0 := grown ! 0 + 2]\<rparr>
      in (MutableFile_Writer st' persistenceIndex, st'))"

text \<open>
  \<^verbatim>\<open>persist(totalSize, final)\<close> has two moments. The call reads the sentry and
  queues the body on the critical section; \<open>None\<close> is the call with
  \<^verbatim>\<open>totalSize === undefined\<close>, which queues nothing. The body runs later, on the
  storage as it is then. The critical section lets one body run at a time; a body
  is a single step here, so the bodies run one at a time in any case.
\<close>

record persist_task =
  sentry :: nat
  task_totalSize :: nat
  task_final :: bool

definition MutableFile_persist :: "MutableFileChunkStorage \<Rightarrow> nat option \<Rightarrow> bool \<Rightarrow> persist_task option" where
  "MutableFile_persist st totalSize final =
     (case totalSize of
        None \<Rightarrow> None
      | Some t \<Rightarrow> Some \<lparr>sentry = persistSentry st, task_totalSize = t, task_final = final\<rparr>)"

definition persist_body :: "io \<Rightarrow> persist_task \<Rightarrow> MutableFileChunkStorage
    \<Rightarrow> error + MutableFileChunkStorage" where
  "persist_body env t st =
     (if sentry t \<noteq> persistSentry st then Inr st
      else if task_final t then
        (case file_truncate env (mfile st) (task_totalSize t) of
           Inl e \<Rightarrow> Inl e | Inr f \<Rightarrow> Inr (st\<lparr>mfile := f\<rparr>))
      else
        (case file_write env (mfile st) (typedArrayToBuffer (persistenceData st))
                (task_totalSize t) of
           Inl e \<Rightarrow> Inl e | Inr f \<Rightarrow> Inr (st\<lparr>mfile := f\<rparr>)))"


text \<open>
  \<^verbatim>\<open>read(position, size)\<close>.
\<close>

definition MutableFile_read :: "io \<Rightarrow> MutableFileChunkStorage \<Rightarrow> nat \<Rightarrow> nat \<Rightarrow> error + bytes" where
  "MutableFile_read env st position sz = file_read env (mfile st) sz position"

text \<open>
  A store into a typed array: outside the array it is ignored.
\<close>

definition store :: "number list \<Rightarrow> nat \<Rightarrow> number \<Rightarrow> number list" where
  "store xs i v = (if i < length xs then xs[i := v] else xs)"

text \<open>
  \<^verbatim>\<open>MutableFileChunkStorage.Writer.doWrite(data)\<close>: nothing for empty data; otherwise
  the file write at \<^verbatim>\<open>startPosition + writtenSize\<close>, and after it the two updates. The
  result is the error thrown, if any, with the writer and the storage afterwards.
\<close>

definition MutableFile_doWrite :: "io \<Rightarrow> bytes \<Rightarrow> MutableFileWriter \<times> MutableFileChunkStorage
    \<Rightarrow> error option \<times> MutableFileWriter \<times> MutableFileChunkStorage" where
  "MutableFile_doWrite env data ws =
     (let (w, st) = ws in
      if length data = 0 then (None, w, st)
      else
        (case file_write env (mfile st) data (startPosition w + writtenSize w) of
           Inl e \<Rightarrow> (Some e, w, st)
         | Inr f \<Rightarrow>
             (let w' = w\<lparr>writtenSize := writtenSize w + length data\<rparr>
              in (None, w',
                  st\<lparr>mfile := f,
                     persistenceData :=
                       store (persistenceData st) (writtenSizeIndex w') (writtenSize w')\<rparr>))))"

text \<open>
  \<^verbatim>\<open>ChunkStorageWriter.doFlush()\<close>, which the random-access writer inherits: nothing.
\<close>

definition MutableFile_doFlush :: "MutableFileWriter \<times> MutableFileChunkStorage
    \<Rightarrow> error option \<times> MutableFileWriter \<times> MutableFileChunkStorage" where
  "MutableFile_doFlush ws = (None, ws)"

section \<open>The segmented backend\<close>

text \<open>
  Modelled from the spec: \<^verbatim>\<open>MultiStoreDatabase\<close> (\<^verbatim>\<open>util/storage.js\<close>) and the object
  stores behind it are not part of the sources. The spec lists get, set and delete by
  key, range-scanned cursors over composite keys and atomic transactions. An object
  store is the list of its entries, each under a key \<^verbatim>\<open>[id, startPosition]\<close>; the
  database of this file has the two stores \<^verbatim>\<open>['data', 'recovery']\<close>.
\<close>

type_synonym object_store = "((nat \<times> number) \<times> bytes) list"

record SegmentsDatabase =
  data :: object_store
  recovery :: object_store

text \<open>
  Modelled from the spec: \<^verbatim>\<open>IDBObjectStore.add(value, key)\<close>, which refuses a key
  that is present (and the transaction then fails).
\<close>

definition store_add :: "object_store \<Rightarrow> bytes \<Rightarrow> nat \<times> number \<Rightarrow> error + object_store" where
  "store_add s v key =
     (if key \<in> fst ` set s then Inl ConstraintError else Inr (s @ [(key, v)]))"

text \<open>
  Modelled from the spec: \<^verbatim>\<open>IDBObjectStore.delete(IDBKeyRange.bound([id], [id, []]))\<close>,
  which removes every entry of the id.
\<close>

definition store_delete :: "object_store \<Rightarrow> nat \<Rightarrow> object_store" where
  "store_delete s i = filter (\<lambda>e. fst (fst e) \<noteq> i) s"


text \<open>
  \<^verbatim>\<open>class SegmentedFileChunkStorage\<close>. The database is shared by all storages; the
  field holds it as this storage sees it.
\<close>

record SegmentedFileChunkStorage =
  storage_id :: nat
  database :: SegmentsDatabase
  flushSentry :: nat

record SegmentedWriter = ChunkStorageWriter +
  bufferPosition :: number
  bufferData :: "bytes list"
  writer_flushSentry :: nat

text \<open>
  \<^verbatim>\<open>static delete(database, id)\<close>: one transaction that deletes the key range of the
  id from both stores.
\<close>

definition Segmented_static_delete :: "io \<Rightarrow> SegmentsDatabase \<Rightarrow> nat \<Rightarrow> error + SegmentsDatabase" where
  "Segmented_static_delete env db i =
     (case env of
        IoFail \<Rightarrow> Inl IoError
      | IoOk \<Rightarrow> Inr \<lparr>data = store_delete (data db) i, recovery = store_delete (recovery db) i\<rparr>)"

text \<open>
  \<^verbatim>\<open>init(isLoaded)\<close> on a new storage with the given id.
\<close>

definition Segmented_init :: "io \<Rightarrow> nat \<Rightarrow> SegmentsDatabase \<Rightarrow> bool
    \<Rightarrow> error + SegmentedFileChunkStorage" where
  "Segmented_init env i db isLoaded =
     (if \<not> isLoaded then
        (case Segmented_static_delete env db i of
           Inl e \<Rightarrow> Inl e
         | Inr db' \<Rightarrow> Inr \<lparr>storage_id = i, database = db', flushSentry = 0\<rparr>)
      else Inr \<lparr>storage_id = i, database = db, flushSentry = 0\<rparr>)"

text \<open>
  \<^verbatim>\<open>writer(startPosition)\<close> and the constructor of
  \<^verbatim>\<open>SegmentedFileChunkStorage.Writer\<close>.
\<close>

definition Segmented_writer :: "SegmentedFileChunkStorage \<Rightarrow> number \<Rightarrow> SegmentedWriter" where
  "Segmented_writer parent sp =
     \<lparr>startPosition = sp, writtenSize = 0, bufferPosition = sp, bufferData = [],
      writer_flushSentry = flushSentry parent\<rparr>"

text \<open>
  \<^verbatim>\<open>load\<close>, \<^verbatim>\<open>reset\<close> and \<^verbatim>\<open>read\<close> throw \<^verbatim>\<open>"Method not implemented."\<close>;
  \<^verbatim>\<open>persist\<close> does nothing.
\<close>

definition Segmented_load :: "SegmentedFileChunkStorage \<Rightarrow> nat \<Rightarrow> error + SegmentedWriter list" where
  "Segmented_load st totalSize = Inl NotImplemented"

definition Segmented_reset :: "SegmentedFileChunkStorage \<Rightarrow> error + SegmentedFileChunkStorage" where
  "Segmented_reset st = Inl NotImplemented"

definition Segmented_read :: "SegmentedFileChunkStorage \<Rightarrow> nat \<Rightarrow> nat \<Rightarrow> error + bytes" where
  "Segmented_read st position sz = Inl NotImplemented"

definition Segmented_persist :: "SegmentedFileChunkStorage \<Rightarrow> SegmentedFileChunkStorage" where
  "Segmented_persist st = st"



text \<open>
  \<^verbatim>\<open>delete()\<close>: a new sentry, then the static delete. The result is the promise's
  outcome and the storage afterwards.
\<close>

definition Segmented_delete :: "io \<Rightarrow> SegmentedFileChunkStorage
    \<Rightarrow> error option \<times> SegmentedFileChunkStorage" where
  "Segmented_delete env st =
     (let st' = st\<lparr>flushSentry := flushSentry st + 1\<rparr>
      in case Segmented_static_delete env (database st') (storage_id st') of
           Inl e \<Rightarrow> (Some e, st')
         | Inr db \<Rightarrow> (None, st'\<lparr>database := db\<rparr>))"

text \<open>
  \<^verbatim>\<open>SegmentedFileChunkStorage.Writer.doWrite(data)\<close>.
\<close>

definition Segmented_doWrite :: "bytes \<Rightarrow> SegmentedWriter \<times> SegmentedFileChunkStorage
    \<Rightarrow> error option \<times> SegmentedWriter \<times> SegmentedFileChunkStorage" where
  "Segmented_doWrite d ws =
     (let (w, st) = ws in
      if length d = 0 then (None, w, st)
      else (None, w\<lparr>bufferData := bufferData w @ [d],
                    writtenSize := writtenSize w + length d\<rparr>, st))"

text \<open>
  \<^verbatim>\<open>SegmentedFileChunkStorage.Writer.doFlush()\<close>: the two guards, then one
  \<^verbatim>\<open>readwrite\<close> transaction that adds the blob under
  \<^verbatim>\<open>[parent.id, bufferPosition]\<close>; only after it has completed are the position and
  the buffer updated.
\<close>

definition Segmented_doFlush :: "io \<Rightarrow> SegmentedWriter \<times> SegmentedFileChunkStorage
    \<Rightarrow> error option \<times> SegmentedWriter \<times> SegmentedFileChunkStorage" where
  "Segmented_doFlush env ws =
     (let (w, st) = ws in
      if writer_flushSentry w \<noteq> flushSentry st then (None, w, st)
      else if length (bufferData w) = 0 then (None, w, st)
      else
        (let d = concat (bufferData w) in
         case (case env of
                 IoFail \<Rightarrow> Inl IoError
               | IoOk \<Rightarrow> store_add (data (database st)) d (storage_id st, bufferPosition w)) of
           Inl e \<Rightarrow> (Some e, w, st)
         | Inr s \<Rightarrow>
             (None, w\<lparr>bufferPosition := bufferPosition w + length d, bufferData := []\<rparr>,
              st\<lparr>database := (database st)\<lparr>data := s\<rparr>\<rparr>)))"

section \<open>The writer's task queue\<close>

text \<open>
  \<^verbatim>\<open>ChunkStorageWriter.sync\<close> chains promises. A promise is a cell of a heap, named by
  its index: its state (\<open>None\<close> while pending) and, for a promise made by \<^verbatim>\<open>then\<close> or
  \<^verbatim>\<open>catch\<close>, the promise it was derived from and the handler that will settle it.
  \<^verbatim>\<open>Promise.resolve()\<close> has no reaction.
\<close>

datatype 'e settled = Fulfilled | Rejected 'e

text \<open>
  The three handlers of \<^verbatim>\<open>sync\<close>: \<^verbatim>\<open>.then(fn)\<close>, the
  \<^verbatim>\<open>.catch(error => ...)\<close> and \<^verbatim>\<open>.then(() => { }, () => { })\<close>.
\<close>

datatype 'op handler = Fn 'op | ErrorHandler | Ignore

record ('op, 'e) cell =
  state :: "'e settled option"
  reaction :: "(nat \<times> 'op handler) option"

text \<open>
  A writer with its queue: the promise heap, the jobs that are ready to run (derived
  promises whose source has settled, oldest first), the field \<^verbatim>\<open>promise\<close>, whether
  \<^verbatim>\<open>parent\<close> is defined, the events dispatched on \<^verbatim>\<open>parent.onError\<close>, and what
  \<^verbatim>\<open>doWrite\<close> and \<^verbatim>\<open>doFlush\<close> act on (the writer's fields and its parent storage).
  \<open>trace\<close> records every task that was called, with its outcome.
\<close>

record ('op, 'e, 's) writer_queue =
  cells :: "nat \<Rightarrow> ('op, 'e) cell"
  next_id :: nat
  jobs :: "nat list"
  promise :: nat
  has_parent :: bool
  onError :: "'e list"
  target :: 's
  trace :: "('op \<times> 'e settled) list"

text \<open>
  A new writer: \<^verbatim>\<open>private promise = Promise.resolve()\<close>.
\<close>

definition new_queue :: "bool \<Rightarrow> 's \<Rightarrow> ('op, 'e, 's) writer_queue" where
  "new_queue parent s =
     \<lparr>cells = (\<lambda>_. \<lparr>state = Some Fulfilled, reaction = None\<rparr>), next_id = 1, jobs = [],
      promise = 0, has_parent = parent, onError = [], target = s, trace = []\<rparr>"

text \<open>
  \<^verbatim>\<open>p.then(...)\<close> and \<^verbatim>\<open>p.catch(...)\<close>: a new pending promise derived from \<open>p\<close>. When
  \<open>p\<close> has settled already, the reaction is ready at once.
\<close>

definition then_promise :: "nat \<Rightarrow> 'op handler \<Rightarrow> ('op, 'e, 's) writer_queue
    \<Rightarrow> nat \<times> ('op, 'e, 's) writer_queue" where
  "then_promise p h q =
     (let d = next_id q;
          q' = q\<lparr>cells := (cells q)(d := \<lparr>state = None, reaction = Some (p, h)\<rparr>),
                 next_id := d + 1\<rparr>
      in (d, if state (cells q p) \<noteq> None then q'\<lparr>jobs := jobs q' @ [d]\<rparr> else q'))"

text \<open>
  Settling a promise makes the reactions registered on it ready, in the order of
  their registration.
\<close>

definition derived_from :: "('op, 'e, 's) writer_queue \<Rightarrow> nat \<Rightarrow> nat \<Rightarrow> bool" where
  "derived_from q p d =
     (case reaction (cells q d) of None \<Rightarrow> False | Some (p', h) \<Rightarrow> p' = p)"

definition settle :: "nat \<Rightarrow> 'e settled \<Rightarrow> ('op, 'e, 's) writer_queue \<Rightarrow> ('op, 'e, 's) writer_queue" where
  "settle p v q =
     q\<lparr>cells := (cells q)(p := (cells q p)\<lparr>state := Some v\<rparr>),
       jobs := jobs q @ filter (derived_from q p) [0 ..< next_id q]\<rparr>"

text \<open>
  \<^verbatim>\<open>sync(fn)\<close>:
  \<^verbatim>\<open>const result = this.promise.then(fn)\<close>,
  \<^verbatim>\<open>this.promise = result.catch(error => ...)\<close>, \<^verbatim>\<open>return result\<close>.
\<close>

definition sync :: "'op \<Rightarrow> ('op, 'e, 's) writer_queue \<Rightarrow> nat \<times> ('op, 'e, 's) writer_queue" where
  "sync fn q =
     (let (result, q1) = then_promise (promise q) (Fn fn) q;
          (c, q2) = then_promise result ErrorHandler q1
      in (result, q2\<lparr>promise := c\<rparr>))"

text \<open>
  The body of the \<^verbatim>\<open>catch\<close> handler:
  \<^verbatim>\<open>this.promise = this.promise.then(() => { }, () => { })\<close>, then
  \<^verbatim>\<open>if (this.parent) this.parent.onError.dispatch(error)\<close>.
\<close>

definition on_error :: "'e \<Rightarrow> ('op, 'e, 's) writer_queue \<Rightarrow> ('op, 'e, 's) writer_queue" where
  "on_error e q =
     (let (h, q1) = then_promise (promise q) Ignore q;
          q2 = q1\<lparr>promise := h\<rparr>
      in if has_parent q2 then q2\<lparr>onError := onError q2 @ [e]\<rparr> else q2)"

text \<open>
  One job: the reaction of the derived promise \<open>d\<close> runs on the settled state of its
  source, and \<open>d\<close> settles with what the handler returns. \<open>exec\<close> is the writer's
  \<^verbatim>\<open>doWrite\<close>/\<^verbatim>\<open>doFlush\<close>; it returns the error thrown, if any. A rejection passes
  through \<^verbatim>\<open>.then(fn)\<close> without calling \<^verbatim>\<open>fn\<close>; a fulfilment passes through
  \<^verbatim>\<open>.catch\<close>.
\<close>

definition run_job :: "(io \<Rightarrow> 'op \<Rightarrow> 's \<Rightarrow> 'e option \<times> 's) \<Rightarrow> io \<Rightarrow> nat
    \<Rightarrow> ('op, 'e, 's) writer_queue \<Rightarrow> ('op, 'e, 's) writer_queue" where
  "run_job exec env d q =
     (case reaction (cells q d) of
        None \<Rightarrow> q
      | Some (p, h) \<Rightarrow>
          (case state (cells q p) of
             None \<Rightarrow> q
           | Some Fulfilled \<Rightarrow>
               (case h of
                  Fn fn \<Rightarrow>
                    (let (err, s) = exec env fn (target q);
                         v = (case err of None \<Rightarrow> Fulfilled | Some e \<Rightarrow> Rejected e)
                     in settle d v (q\<lparr>target := s, trace := trace q @ [(fn, v)]\<rparr>))
                | ErrorHandler \<Rightarrow> settle d Fulfilled q
                | Ignore \<Rightarrow> settle d Fulfilled q)
           | Some (Rejected e) \<Rightarrow>
               (case h of
                  Fn fn \<Rightarrow> settle d (Rejected e) q
                | ErrorHandler \<Rightarrow> settle d Fulfilled (on_error e q)
                | Ignore \<Rightarrow> settle d Fulfilled q)))"

text \<open>
  One turn of the event loop: the oldest ready job runs. \<open>env\<close> is what the
  environment decides for the input and output of the task, if the job calls one.
\<close>

definition tick :: "(io \<Rightarrow> 'op \<Rightarrow> 's \<Rightarrow> 'e option \<times> 's) \<Rightarrow> io
    \<Rightarrow> ('op, 'e, 's) writer_queue \<Rightarrow> ('op, 'e, 's) writer_queue" where
  "tick exec env q =
     (case jobs q of [] \<Rightarrow> q | d # ds \<Rightarrow> run_job exec env d (q\<lparr>jobs := ds\<rparr>))"

text \<open>
  The tasks of a writer: \<^verbatim>\<open>write(data)\<close> queues \<^verbatim>\<open>() => this.doWrite(data)\<close> and
  \<^verbatim>\<open>flush()\<close> queues \<^verbatim>\<open>() => this.doFlush()\<close>.
\<close>

datatype task = DoWrite bytes | DoFlush

definition Writer_write :: "bytes \<Rightarrow> (task, 'e, 's) writer_queue \<Rightarrow> nat \<times> (task, 'e, 's) writer_queue" where
  "Writer_write d q = sync (DoWrite d) q"

definition Writer_flush :: "(task, 'e, 's) writer_queue \<Rightarrow> nat \<times> (task, 'e, 's) writer_queue" where
  "Writer_flush q = sync DoFlush q"

definition MutableFile_exec :: "io \<Rightarrow> task \<Rightarrow> MutableFileWriter \<times> MutableFileChunkStorage
    \<Rightarrow> error option \<times> MutableFileWriter \<times> MutableFileChunkStorage" where
  "MutableFile_exec env t ws =
     (case t of DoWrite d \<Rightarrow> MutableFile_doWrite env d ws | DoFlush \<Rightarrow> MutableFile_doFlush ws)"

definition Segmented_exec :: "io \<Rightarrow> task \<Rightarrow> SegmentedWriter \<times> SegmentedFileChunkStorage
    \<Rightarrow> error option \<times> SegmentedWriter \<times> SegmentedFileChunkStorage" where
  "Segmented_exec env t ws =
     (case t of DoWrite d \<Rightarrow> Segmented_doWrite d ws | DoFlush \<Rightarrow> Segmented_doFlush env ws)"

text \<open>
  What happens to a writer, in any order: a call of \<^verbatim>\<open>write\<close> or \<^verbatim>\<open>flush\<close>, or a
  turn of the event loop. \<open>run\<close> returns the promises that the calls returned, in
  call order.
\<close>

datatype 'op event = Call 'op | Tick io

fun run :: "(io \<Rightarrow> 'op \<Rightarrow> 's \<Rightarrow> 'e option \<times> 's) \<Rightarrow> 'op event list
    \<Rightarrow> nat list \<times> ('op, 'e, 's) writer_queue \<Rightarrow> nat list \<times> ('op, 'e, 's) writer_queue" where
  "run exec [] rq = rq"
| "run exec (Call fn # evs) (rs, q) =
     (let (r, q') = sync fn q in run exec evs (rs @ [r], q'))"
| "run exec (Tick env # evs) (rs, q) = run exec evs (rs, tick exec env q)"

fun calls :: "'op event list \<Rightarrow> 'op list" where
  "calls [] = []"
| "calls (Call fn # evs) = fn # calls evs"
| "calls (Tick env # evs) = calls evs"

section \<open>A storage with its writers\<close>

text \<open>
  The random-access storage together with the writers it has handed out, and what
  happens to them: a call of \<^verbatim>\<open>writer(startPosition)\<close>, or a \<^verbatim>\<open>doWrite\<close> of one
  writer that the writer's queue runs.
\<close>

record MutableFile_system =
  storage :: MutableFileChunkStorage
  writers :: "MutableFileWriter list"

datatype MutableFile_event = NewWriter number | WriteData nat bytes io

fun MutableFile_step :: "MutableFile_system \<Rightarrow> MutableFile_event \<Rightarrow> MutableFile_system" where
  "MutableFile_step sys (NewWriter sp) =
     (let (w, st) = MutableFile_writer (storage sys) sp
      in \<lparr>storage = st, writers = writers sys @ [w]\<rparr>)"
| "MutableFile_step sys (WriteData i d env) =
     (if i < length (writers sys) then
        (let (err, w, st) = MutableFile_doWrite env d (writers sys ! i, storage sys)
         in \<lparr>storage = st, writers = (writers sys)[i := w]\<rparr>)
      else sys)"

text \<open>
  The \<^verbatim>\<open>(startPosition, writtenSize)\<close> pairs of a list of writers.
\<close>

definition pairs :: "MutableFileWriter list \<Rightarrow> (number \<times> number) list" where
  "pairs ws = map (\<lambda>w. (startPosition w, writtenSize w)) ws"

text \<open>
  The specification's invariant of the persistence table, for \<open>n\<close> writers:
  \<open>1 + 2 \<times> n\<close> entries, the first of which is the number of entries minus one.
\<close>

definition table_ok :: "nat \<Rightarrow> number list \<Rightarrow> bool" where
  "table_ok n t = (length t = 1 + 2 * n \<and> t ! 0 = length t - 1)"

text \<open>
  The table that holds exactly the given pairs, and the invariant that ties the
  table to the writers: the table is the header followed by the writers' pairs, and
  the \<open>i\<close>-th writer owns slot \<open>2 i + 2\<close>.
\<close>

fun table_of :: "(number \<times> number) list \<Rightarrow> number list" where
  "table_of [] = []"
| "table_of ((s, n) # ps) = s # n # table_of ps"

definition consistent :: "MutableFile_system \<Rightarrow> bool" where
  "consistent sys =
     (persistenceData (storage sys) = 2 * length (writers sys) # table_of (pairs (writers sys))
      \<and> (\<forall>i < length (writers sys). writtenSizeIndex (writers sys ! i) = 2 * i + 2))"

text \<open>
  The systems that can arise: a newly initialised storage; any system after a call
  of \<^verbatim>\<open>writer\<close> or a write; and, after \<^verbatim>\<open>persist(T, false)\<close> has been executed, a new
  storage over the same file with the writers that \<^verbatim>\<open>load(T)\<close> returns (a restart).
\<close>

inductive reachable :: "MutableFile_system \<Rightarrow> bool" where
  init: "reachable \<lparr>storage = MutableFile_init f, writers = []\<rparr>"
| step: "reachable sys \<Longrightarrow> reachable (MutableFile_step sys ev)"
| reload:
    "reachable sys \<Longrightarrow> list_all (\<lambda>x. x < 2 ^ 53) (persistenceData (storage sys)) \<Longrightarrow>
     MutableFile_persist (storage sys) (Some T) False = Some t \<Longrightarrow>
     persist_body IoOk t (storage sys) = Inr st' \<Longrightarrow>
     MutableFile_load env1 env2 (MutableFile_init (mfile st')) T = (ws, st) \<Longrightarrow>
     reachable \<lparr>storage = st, writers = ws\<rparr>"

section \<open>Segments and tasks of the segmented backend\<close>

text \<open>
  What happens to a segmented writer and its storage, in any order: the queue runs
  one of the writer's tasks, or \<^verbatim>\<open>delete()\<close> is called on the storage.
\<close>

datatype Segmented_event = RunTask task io | Delete io

fun Segmented_step :: "SegmentedWriter \<times> SegmentedFileChunkStorage \<Rightarrow> Segmented_event
    \<Rightarrow> SegmentedWriter \<times> SegmentedFileChunkStorage" where
  "Segmented_step ws (RunTask t env) = snd (Segmented_exec env t ws)"
| "Segmented_step ws (Delete env) = (fst ws, snd (Segmented_delete env (snd ws)))"




section \<open>The invariant of the promise chain\<close>

text \<open>
  The task that \<^verbatim>\<open>.then(fn)\<close> registered for a promise, if the promise was made that
  way.
\<close>

definition fn_at :: "('op, 'e, 's) writer_queue \<Rightarrow> nat \<Rightarrow> 'op option" where
  "fn_at q d = (case reaction (cells q d) of Some (p, Fn fn) \<Rightarrow> Some fn | _ \<Rightarrow> None)"

definition is_fn :: "('op, 'e, 's) writer_queue \<Rightarrow> nat \<Rightarrow> bool" where
  "is_fn q d = (fn_at q d \<noteq> None)"

text \<open>
  The promises of one writer form a single chain: every promise but the first is
  derived from the one allocated just before it.
\<close>

definition shape :: "('op, 'e, 's) writer_queue \<Rightarrow> bool" where
  "shape q =
     (reaction (cells q 0) = None
      \<and> (\<forall>d. 0 < d \<and> d < next_id q \<longrightarrow> (\<exists>h. reaction (cells q d) = Some (d - 1, h))))"

text \<open>
  \<open>chain q m\<close>: the promises below \<open>m\<close> have settled and the others are pending;
  \<^verbatim>\<open>this.promise\<close> is the last promise; the only ready job is the reaction of promise
  \<open>m\<close>; a settled promise that is not the result of a task is fulfilled; and the
  result of every task is followed by the promise of its \<^verbatim>\<open>catch\<close>.
\<close>

definition chain :: "('op, 'e, 's) writer_queue \<Rightarrow> nat \<Rightarrow> bool" where
  "chain q m =
     (shape q \<and> 0 < m \<and> m \<le> next_id q \<and> promise q + 1 = next_id q
      \<and> (\<forall>d. d < m \<longrightarrow> state (cells q d) \<noteq> None)
      \<and> (\<forall>d. m \<le> d \<and> d < next_id q \<longrightarrow> state (cells q d) = None)
      \<and> jobs q = (if m < next_id q then [m] else [])
      \<and> (\<forall>d. d < m \<and> fn_at q d = None \<longrightarrow> state (cells q d) = Some Fulfilled)
      \<and> (\<forall>d. d < next_id q \<and> fn_at q d \<noteq> None \<longrightarrow>
            Suc d < next_id q \<and> reaction (cells q (Suc d)) = Some (d, ErrorHandler)))"

text \<open>
  The tasks among the first \<open>m\<close> promises with their outcomes; the errors of a
  trace; the error whose \<^verbatim>\<open>catch\<close> handler has not run yet.
\<close>

definition executed :: "('op, 'e, 's) writer_queue \<Rightarrow> nat \<Rightarrow> ('op \<times> 'e settled) list" where
  "executed q m =
     map (\<lambda>d. (the (fn_at q d), the (state (cells q d)))) (filter (is_fn q) [0 ..< m])"

definition failures :: "('op \<times> 'e settled) list \<Rightarrow> 'e list" where
  "failures tr = concat (map (\<lambda>(fn, v). case v of Fulfilled \<Rightarrow> [] | Rejected e \<Rightarrow> [e]) tr)"

definition pending_error :: "('op, 'e, 's) writer_queue \<Rightarrow> nat \<Rightarrow> 'e list" where
  "pending_error q m = (case state (cells q (m - 1)) of Some (Rejected e) \<Rightarrow> [e] | _ \<Rightarrow> [])"

text \<open>
  The reference behaviour: the tasks run one after the other, each on the state the
  previous one left, with the given outcomes of the environment.
\<close>

fun apply_tasks :: "(io \<Rightarrow> 'op \<Rightarrow> 's \<Rightarrow> 'e option \<times> 's) \<Rightarrow> ('op \<times> io) list \<Rightarrow> 's
    \<Rightarrow> 'e settled list \<times> 's" where
  "apply_tasks exec [] s = ([], s)"
| "apply_tasks exec ((fn, env) # r) s =
     (let (err, s') = exec env fn s;
          (vs, s'') = apply_tasks exec r s'
      in ((case err of None \<Rightarrow> Fulfilled | Some e \<Rightarrow> Rejected e) # vs, s''))"

text \<open>
  The invariant of a writer's queue after the calls \<open>cs\<close>, which returned the promises
  \<open>rs\<close>, and the number of turns of the event loop that are still needed at most.
\<close>

definition queue_inv :: "(io \<Rightarrow> 'op \<Rightarrow> 's \<Rightarrow> 'e option \<times> 's) \<Rightarrow> 's \<Rightarrow> 'op list \<Rightarrow> nat list
    \<Rightarrow> ('op, 'e, 's) writer_queue \<Rightarrow> nat \<Rightarrow> bool" where
  "queue_inv exec s0 cs rs q m =
     (chain q m
      \<and> trace q = executed q m
      \<and> rs = filter (is_fn q) [0 ..< next_id q]
      \<and> cs = map (\<lambda>d. the (fn_at q d)) rs
      \<and> (has_parent q \<longrightarrow> failures (trace q) = onError q @ pending_error q m)
      \<and> (\<exists>envs. length envs = length (trace q)
            \<and> apply_tasks exec (zip (map fst (trace q)) envs) s0 = (map snd (trace q), target q)))"

definition work :: "('op, 'e, 's) writer_queue \<Rightarrow> nat \<Rightarrow> nat" where
  "work q m =
     (next_id q - m) + length (filter (is_fn q) [m ..< next_id q]) + length (pending_error q m)"



section \<open>Properties of the random-access backend\<close>

subsection \<open>The table and the writers\<close>

lemma length_table_of: "length (table_of ps) = 2 * length ps"
  by (induction ps rule: table_of.induct) auto

lemma table_of_append: "table_of (ps @ qs) = table_of ps @ table_of qs"
  by (induction ps rule: table_of.induct) auto

lemma table_of_nth:
  "i < length ps \<Longrightarrow> table_of ps ! (2 * i) = fst (ps ! i) \<and> table_of ps ! (2 * i + 1) = snd (ps ! i)"
proof (induction ps arbitrary: i rule: table_of.induct)
  case 1
  then show ?case by simp
next
  case (2 s n ps)
  then show ?case by (cases i) auto
qed

lemma table_of_update:
  "i < length ps \<Longrightarrow> (table_of ps)[2 * i + 1 := v] = table_of (ps[i := (fst (ps ! i), v)])"
proof (induction ps arbitrary: i rule: table_of.induct)
  case 1
  then show ?case by simp
next
  case (2 s n ps)
  then show ?case by (cases i) auto
qed

lemma consistent_init: "consistent \<lparr>storage = MutableFile_init f, writers = []\<rparr>"
  by (simp add: consistent_def MutableFile_init_def pairs_def)

lemma consistent_writer:
  assumes "consistent sys"
  shows "consistent (MutableFile_step sys (NewWriter sp))"
  using assms
  by (auto simp: consistent_def MutableFile_writer_def MutableFile_Writer_def Let_def pairs_def
      table_of_append length_table_of nth_append)

lemma consistent_write:
  assumes "consistent sys"
  shows "consistent (MutableFile_step sys (WriteData i d env))"
proof (cases "i < length (writers sys) \<and> d \<noteq> [] \<and> env = IoOk")
  case False
  then show ?thesis using assms
    by (cases env) (auto simp: MutableFile_doWrite_def file_write_def consistent_def)
next
  case True
  let ?ws = "writers sys"
  let ?w = "?ws ! i"
  have idx: "writtenSizeIndex ?w = 2 * i + 2" using assms True by (simp add: consistent_def)
  have tbl: "persistenceData (storage sys) = 2 * length ?ws # table_of (pairs ?ws)"
    using assms by (simp add: consistent_def)
  have upd: "(table_of (pairs ?ws))[2 * i + 1 := v]
      = table_of (pairs (?ws[i := ?w\<lparr>writtenSize := v\<rparr>]))" for v
    using True table_of_update[of i "pairs ?ws" v]
    by (simp add: pairs_def map_update)
  have len: "length (pairs ?ws) = length ?ws" by (simp add: pairs_def)
  show ?thesis using True assms idx tbl upd len
    by (auto simp: consistent_def MutableFile_doWrite_def file_write_def store_def Let_def
        length_table_of nth_list_update)
qed

lemma consistent_step: "consistent sys \<Longrightarrow> consistent (MutableFile_step sys ev)"
  by (cases ev) (simp_all only: consistent_writer consistent_write)

lemma consistent_fold: "consistent sys \<Longrightarrow> consistent (foldl MutableFile_step sys evs)"
  by (induction evs arbitrary: sys) (simp_all add: consistent_step)

lemma length_number_bytes: "length (number_bytes k x) = k"
  by (induction k arbitrary: x) auto

lemma bytes_number_bytes: "x < 256 ^ k \<Longrightarrow> bytes_number (number_bytes k x) = x"
proof (induction k arbitrary: x)
  case 0
  then show ?case by simp
next
  case (Suc k)
  have "x div 256 < 256 ^ k" using Suc.prems by (simp add: less_mult_imp_div_less mult.commute)
  then have "bytes_number (number_bytes k (x div 256)) = x div 256" by (rule Suc.IH)
  moreover have "unat (word_of_nat (x mod 256) :: 8 word) = x mod 256"
    by (simp add: unat_of_nat)
  ultimately show ?case by simp
qed

lemma length_typedArrayToBuffer: "length (typedArrayToBuffer xs) = BYTES * length xs"
  by (induction xs) (auto simp: typedArrayToBuffer_def length_number_bytes)

lemma elements_buffer:
  "\<forall>x \<in> set xs. x < 2 ^ 64 \<Longrightarrow> elements (length xs) (typedArrayToBuffer xs @ rest) = xs"
proof (induction xs)
  case Nil
  then show ?case by simp
next
  case (Cons x xs)
  have x: "x < 256 ^ 8" using Cons.prems by simp
  have "typedArrayToBuffer (x # xs) = number_bytes BYTES x @ typedArrayToBuffer xs"
    by (simp add: typedArrayToBuffer_def)
  then show ?case using Cons bytes_number_bytes[OF x]
    by (simp add: length_number_bytes BYTES_def)
qed

lemma Float64Array_buffer:
  assumes "\<forall>x \<in> set xs. x < 2 ^ 64"
  shows "Float64Array (typedArrayToBuffer xs) = Inr xs"
  using elements_buffer[OF assms, of "[]"]
  by (simp add: Float64Array_def length_typedArrayToBuffer BYTES_def)

lemma drop_file_write:
  "file_write IoOk f d T = Inr f' \<Longrightarrow> drop T f' = d @ drop (T + length d) f"
  by (auto simp: file_write_def)

lemma take_header:
  "take BYTES (typedArrayToBuffer (h # xs) @ rest) = typedArrayToBuffer [h]"
  by (simp add: typedArrayToBuffer_def length_number_bytes)

lemma filter_odd_upt: "filter odd [1 ..< 1 + 2 * n] = map (\<lambda>i. 2 * i + 1) [0 ..< n]"
  by (induction n) auto

lemma pairs_load_writers:
  assumes "persistenceData st = k # table_of ps"
  shows "pairs (load_writers st) = ps"
proof -
  have len: "length (persistenceData st) = 1 + 2 * length ps"
    using assms by (simp add: length_table_of)
  have "pairs (load_writers st) = map (\<lambda>i. ps ! i) [0 ..< length ps]"
    unfolding load_writers_def pairs_def len filter_odd_upt
    using table_of_nth[of _ ps] by (auto simp: MutableFile_Writer_def assms length_table_of)
  then show ?thesis by (simp add: map_nth)
qed

lemma load_after_persist:
  assumes tbl: "persistenceData st = h # xs" and h: "length xs = h"
    and small: "\<forall>x \<in> set (persistenceData st). x < 2 ^ 64"
    and w: "file_write IoOk (mfile st) (typedArrayToBuffer (persistenceData st)) T = Inr f'"
  shows "MutableFile_load IoOk IoOk (MutableFile_init f') T =
     (if h = 0 then ([], MutableFile_init f')
      else (load_writers ((MutableFile_init f')\<lparr>persistenceData := h # xs\<rparr>),
            (MutableFile_init f')\<lparr>persistenceData := h # xs\<rparr>))"
proof -
  let ?buf = "typedArrayToBuffer (h # xs)"
  have d: "drop T f' = ?buf @ drop (T + length ?buf) (mfile st)"
    using drop_file_write[OF w] tbl by simp
  have hs: "h < 2 ^ 64" using small tbl by simp
  have r1: "file_read IoOk f' BYTES T = Inr (typedArrayToBuffer [h])"
    unfolding file_read_def d using take_header[of h xs] by simp
  have f1: "Float64Array (typedArrayToBuffer [h]) = Inr [h]"
    using hs by (intro Float64Array_buffer) simp
  have r2: "file_read IoOk f' (BYTES * (h + 1)) T = Inr ?buf"
    using h by (simp add: file_read_def d length_typedArrayToBuffer)
  have f2: "Float64Array ?buf = Inr (h # xs)"
    using small tbl by (intro Float64Array_buffer) simp
  have m: "mfile (MutableFile_init f') = f'" "length (persistenceData (MutableFile_init f')) = 1"
    by (simp_all add: MutableFile_init_def)
  have "load_try IoOk IoOk (MutableFile_init f') T = (if h = 0 then Inr None else Inr (Some (h # xs)))"
    using h r2 f2 by (simp add: load_try_def m r1 f1)
  then show ?thesis
    by (simp add: MutableFile_load_def Let_def)
qed

lemma table_ok_consistent: "consistent sys \<Longrightarrow> table_ok (length (writers sys)) (persistenceData (storage sys))"
  by (simp add: consistent_def table_ok_def length_table_of pairs_def)

lemma load_writers_init: "load_writers (MutableFile_init f) = []"
  by (simp add: load_writers_def MutableFile_init_def)

lemma length_elements: "length (elements n b) = n"
  by (induction n arbitrary: b) auto

lemma Float64Array_Cons:
  assumes "Float64Array b = Inr (h # r)"
  shows "h = bytes_number (take BYTES b) \<and> BYTES \<le> length b"
proof -
  from assms have e: "elements (length b div BYTES) b = h # r" and "length b mod BYTES = 0"
    by (auto simp: Float64Array_def split: if_splits)
  then obtain n where n: "length b div BYTES = Suc n"
    by (cases "length b div BYTES") auto
  then have "BYTES \<le> length b" by (auto simp: BYTES_def)
  then show ?thesis using e n by simp
qed

lemma Float64Array_length:
  "Float64Array b = Inr d \<Longrightarrow> length b = BYTES * length d"
  by (auto simp: Float64Array_def length_elements BYTES_def split: if_splits)

lemma index_load_writers:
  assumes "length (persistenceData st) = 1 + 2 * n" "i < n"
  shows "length (load_writers st) = n \<and> writtenSizeIndex (load_writers st ! i) = 2 * i + 2"
  using assms unfolding load_writers_def assms(1) filter_odd_upt
  by (simp add: MutableFile_Writer_def)

lemma consistent_loaded:
  assumes "persistenceData st = 2 * length ps # table_of ps"
  shows "consistent \<lparr>storage = st, writers = load_writers st\<rparr>"
proof -
  have p: "pairs (load_writers st) = ps" by (rule pairs_load_writers[OF assms])
  then have l: "length (load_writers st) = length ps" by (metis length_map pairs_def)
  have len: "length (persistenceData st) = 1 + 2 * length ps"
    using assms by (simp add: length_table_of)
  show ?thesis
    unfolding consistent_def using assms p l index_load_writers[OF len] by simp
qed

lemma load_cases:
  "(\<exists>e. load_try env1 env2 st T = Inl e) \<or> load_try env1 env2 st T = Inr None
   \<or> (env1 = IoOk \<and> env2 = IoOk)"
  by (cases env1; cases env2)
     (auto simp: load_try_def file_read_def split: sum.splits list.splits)

lemma consistent_reload:
  assumes c: "consistent sys"
    and small: "list_all (\<lambda>x. x < 2 ^ 53) (persistenceData (storage sys))"
    and call: "MutableFile_persist (storage sys) (Some T) False = Some t"
    and body: "persist_body IoOk t (storage sys) = Inr st'"
    and load: "MutableFile_load env1 env2 (MutableFile_init (mfile st')) T = (ws, st)"
  shows "consistent \<lparr>storage = st, writers = ws\<rparr>"
proof -
  let ?st = "storage sys"
  let ?ps = "pairs (writers sys)"
  let ?f = "mfile st'"
  have tbl: "persistenceData ?st = 2 * length (writers sys) # table_of ?ps"
    using c by (simp add: consistent_def)
  have h: "length (table_of ?ps) = 2 * length (writers sys)"
    by (simp add: length_table_of pairs_def)
  have small': "\<forall>x \<in> set (persistenceData ?st). x < 2 ^ 64"
  proof
    fix x assume "x \<in> set (persistenceData ?st)"
    then have "x < 2 ^ 53" using small by (simp add: list_all_iff)
    also have "(2::nat) ^ 53 < 2 ^ 64" by simp
    finally show "x < 2 ^ 64" .
  qed
  have t: "t = \<lparr>sentry = persistSentry ?st, task_totalSize = T, task_final = False\<rparr>"
    using call by (simp add: MutableFile_persist_def)
  have w: "file_write IoOk (mfile ?st) (typedArrayToBuffer (persistenceData ?st)) T = Inr ?f"
    using body unfolding t persist_body_def by (auto split: sum.splits)
  have empty: "consistent \<lparr>storage = MutableFile_init ?f, writers = load_writers (MutableFile_init ?f)\<rparr>"
    using consistent_init[of ?f] by (simp add: load_writers_init)
  consider e where "load_try env1 env2 (MutableFile_init ?f) T = Inl e"
    | "load_try env1 env2 (MutableFile_init ?f) T = Inr None"
    | "env1 = IoOk" "env2 = IoOk"
    using load_cases[of env1 env2 "MutableFile_init ?f" T] by blast
  then show ?thesis
  proof cases
    case 1
    then show ?thesis using load empty by (auto simp: MutableFile_load_def)
  next
    case 2
    then show ?thesis using load consistent_init[of ?f] by (auto simp: MutableFile_load_def)
  next
    case 3
    have l: "MutableFile_load IoOk IoOk (MutableFile_init ?f) T =
     (if 2 * length (writers sys) = 0 then ([], MutableFile_init ?f)
      else (load_writers ((MutableFile_init ?f)\<lparr>persistenceData := 2 * length (writers sys) # table_of ?ps\<rparr>),
            (MutableFile_init ?f)\<lparr>persistenceData := 2 * length (writers sys) # table_of ?ps\<rparr>))"
      by (rule load_after_persist[OF tbl h small' w])
    have lp: "length ?ps = length (writers sys)" by (simp add: pairs_def)
    show ?thesis
    proof (cases "writers sys = []")
      case True
      then show ?thesis using l load 3 consistent_init[of ?f] by simp
    next
      case False
      then have "ws = load_writers st"
        "persistenceData st = 2 * length ?ps # table_of ?ps"
        using l load 3 lp by auto
      then show ?thesis using consistent_loaded[of st ?ps] by simp
    qed
  qed
qed

lemma reachable_consistent: "reachable sys \<Longrightarrow> consistent sys"
proof (induction rule: reachable.induct)
  case (init f)
  then show ?case by (rule consistent_init)
next
  case (step sys ev)
  then show ?case by (simp add: consistent_step)
next
  case (reload sys T t st' env1 env2 ws st)
  then show ?case using consistent_reload by blast
qed

lemma reachable_fold: "reachable sys \<Longrightarrow> reachable (foldl MutableFile_step sys evs)"
  by (induction evs arbitrary: sys) (simp_all add: reachable.step)




text \<open>
  Claim C9. Random-access backend, invariant of the table. After \<^verbatim>\<open>init\<close> and any
  sequence of \<^verbatim>\<open>writer()\<close> calls (and writes, and restarts that load what was
  persisted), the table has \<open>1 + 2 \<times>\<close> (number of writers created or loaded)
  entries and its first entry is the number of entries minus one. A call
  \<^verbatim>\<open>writer(startPosition)\<close> appends exactly the pair \<open>(startPosition, 0)\<close>, adds two
  to the first entry, leaves the file alone, and returns a writer with that
  \<^verbatim>\<open>startPosition\<close>, \<^verbatim>\<open>writtenSize\<close> 0 and the slot of the new pair.
\<close>

theorem table_invariant:
  assumes "reachable sys"
  shows "table_ok (length (writers sys)) (persistenceData (storage sys))
     \<and> (case MutableFile_writer (storage sys) sp of
          (w, st') \<Rightarrow>
            persistenceData st'
              = (persistenceData (storage sys))[0 := persistenceData (storage sys) ! 0 + 2] @ [sp, 0]
          \<and> table_ok (length (writers sys) + 1) (persistenceData st')
          \<and> w = \<lparr>startPosition = sp, writtenSize = 0,
                  writtenSizeIndex = length (persistenceData (storage sys)) + 1\<rparr>
          \<and> persistenceData st' ! (writtenSizeIndex w - 1) = sp
          \<and> persistenceData st' ! writtenSizeIndex w = 0
          \<and> mfile st' = mfile (storage sys) \<and> persistSentry st' = persistSentry (storage sys))"
proof -
  have c: "consistent sys" using assms by (rule reachable_consistent)
  then have ok: "table_ok (length (writers sys)) (persistenceData (storage sys))"
    by (rule table_ok_consistent)
  then have ne: "persistenceData (storage sys) \<noteq> []" by (auto simp: table_ok_def)
  show ?thesis using ok ne
    by (cases "persistenceData (storage sys)")
       (auto simp: MutableFile_writer_def MutableFile_Writer_def Let_def table_ok_def nth_append)
qed

theorem table_invariant_witness:
  "table_ok 2 [4, 0, 0, 2, 3]
   \<and> MutableFile_writer \<lparr>mfile = [0,0,7,7,7], persistSentry = 0, persistenceData = [4, 0, 0, 2, 3]\<rparr> 30
     = (\<lparr>startPosition = 30, writtenSize = 0, writtenSizeIndex = 6\<rparr>,
        \<lparr>mfile = [0,0,7,7,7], persistSentry = 0, persistenceData = [6, 0, 0, 2, 3, 30, 0]\<rparr>)"
proof -
  let ?evs = "[NewWriter 0, NewWriter 2, WriteData 1 [7,7,7] IoOk]"
  have e: "foldl MutableFile_step \<lparr>storage = MutableFile_init [], writers = []\<rparr> ?evs
    = \<lparr>storage = \<lparr>mfile = [0,0,7,7,7], persistSentry = 0, persistenceData = [4, 0, 0, 2, 3]\<rparr>,
       writers = [\<lparr>startPosition = 0, writtenSize = 0, writtenSizeIndex = 2\<rparr>,
                  \<lparr>startPosition = 2, writtenSize = 3, writtenSizeIndex = 4\<rparr>]\<rparr>"
    by (simp add: MutableFile_init_def MutableFile_writer_def MutableFile_Writer_def
      MutableFile_doWrite_def file_write_def store_def Let_def numeral_2_eq_2)
  have "reachable (foldl MutableFile_step \<lparr>storage = MutableFile_init [], writers = []\<rparr> ?evs)"
    by (intro reachable_fold reachable.init)
  then have r: "reachable \<lparr>storage = \<lparr>mfile = [0,0,7,7,7], persistSentry = 0, persistenceData = [4, 0, 0, 2, 3]\<rparr>,
       writers = [\<lparr>startPosition = 0, writtenSize = 0, writtenSizeIndex = 2\<rparr>,
                  \<lparr>startPosition = 2, writtenSize = 3, writtenSizeIndex = 4\<rparr>]\<rparr>"
    unfolding e .
  show ?thesis
    using table_invariant[OF r, of 30]
    by (simp add: MutableFile_writer_def MutableFile_Writer_def Let_def numeral_2_eq_2)
qed

text \<open>
  Claim C7. Random-access backend. \<^verbatim>\<open>load(totalSize)\<close> on a newly initialised
  storage, with missing or malformed metadata (a read that fails, a header that is
  absent or zero, or a file too short for the announced table), does not fail: it
  returns an empty list of writers and leaves the storage as it was.
\<close>

theorem load_malformed:
  assumes "env1 = IoFail \<or> env2 = IoFail
    \<or> bytes_number (take BYTES (drop T f)) = 0
    \<or> length f < T + BYTES * (bytes_number (take BYTES (drop T f)) + 1)"
  shows "MutableFile_load env1 env2 (MutableFile_init f) T = ([], MutableFile_init f)"
proof -
  let ?h = "bytes_number (take BYTES (drop T f))"
  have m: "mfile (MutableFile_init f) = f" by (simp add: MutableFile_init_def)
  have "load_try env1 env2 (MutableFile_init f) T \<noteq> Inr (Some d)" for d
  proof
    assume a: "load_try env1 env2 (MutableFile_init f) T = Inr (Some d)"
    from a have e1: "env1 = IoOk" by (cases env1) (auto simp: load_try_def file_read_def)
    from a e1 obtain sz r where hd: "Float64Array (take BYTES (drop T f)) = Inr (sz # r)"
      by (auto simp: load_try_def file_read_def m split: sum.splits list.splits)
    have sz: "sz = ?h" using Float64Array_Cons[OF hd] by simp
    from a e1 hd have h0: "sz \<noteq> 0"
      by (auto simp: load_try_def file_read_def m split: if_splits)
    from a e1 hd h0 have e2: "env2 = IoOk"
      by (cases env2) (auto simp: load_try_def file_read_def m)
    from a e1 e2 hd h0
    have d: "Float64Array (take (BYTES * (sz + 1)) (drop T f)) = Inr d" "length d = sz + 1"
      by (auto simp: load_try_def file_read_def m split: if_splits sum.splits)
    have "length (take (BYTES * (sz + 1)) (drop T f)) = BYTES * (sz + 1)"
      using Float64Array_length[OF d(1)] d(2) by simp
    then have "BYTES * (sz + 1) \<le> length f - T"
      by (simp add: min_def split: if_splits)
    then show False using assms e1 e2 h0 sz by (auto simp: BYTES_def)
  qed
  then show ?thesis
    by (auto simp: MutableFile_load_def load_writers_init split: sum.splits option.splits)
qed

theorem load_malformed_witness:
  "MutableFile_load IoOk IoOk (MutableFile_init [1, 2, 3]) 3 = ([], MutableFile_init [1, 2, 3])
   \<and> MutableFile_load IoOk IoOk (MutableFile_init [2,0,0,0,0,0,0,0, 5,0,0,0,0,0,0,0]) 0
       = ([], MutableFile_init [2,0,0,0,0,0,0,0, 5,0,0,0,0,0,0,0])"
  using load_malformed[of IoOk IoOk 3 "[1, 2, 3]"]
    load_malformed[of IoOk IoOk 0 "[2,0,0,0,0,0,0,0, 5,0,0,0,0,0,0,0]"]
  by (simp add: BYTES_def)

text \<open>
  Claim C10. On both backends, \<^verbatim>\<open>doWrite\<close> of zero-length data succeeds and
  changes nothing: the writer (its \<^verbatim>\<open>writtenSize\<close>, its buffer) and the storage (the
  file, the table, the database) are as before, whatever the environment would have
  done to a write.
\<close>

theorem zero_length_write:
  "MutableFile_doWrite env [] (w, st) = (None, w, st)
   \<and> Segmented_doWrite [] (w', st') = (None, w', st')"
  by (simp add: MutableFile_doWrite_def Segmented_doWrite_def)







section \<open>Properties of the task queue\<close>

lemma filter_single:
  assumes "\<And>d. d < n \<Longrightarrow> P d \<longleftrightarrow> d = k"
  shows "filter P [0 ..< n] = (if k < n then [k] else [])"
  using assms
proof (induction n)
  case 0
  then show ?case by simp
next
  case (Suc n)
  then have "filter P [0 ..< n] = (if k < n then [k] else [])" by simp
  moreover have "P n \<longleftrightarrow> n = k" using Suc.prems by simp
  ultimately show ?case by auto
qed

lemma chain_new: "chain (new_queue parent s) 1"
  by (auto simp: chain_def shape_def new_queue_def fn_at_def)

lemma derived_shape:
  assumes "shape q" "d < next_id q"
  shows "derived_from q p d \<longleftrightarrow> d = Suc p"
proof (cases d)
  case 0
  then show ?thesis using assms by (simp add: shape_def derived_from_def)
next
  case (Suc d')
  then obtain h where "reaction (cells q d) = Some (d', h)"
    using assms unfolding shape_def by (metis diff_Suc_1 zero_less_Suc)
  then show ?thesis using Suc by (auto simp: derived_from_def)
qed

lemma settle_shape:
  assumes "shape q"
  shows "settle p v q =
     q\<lparr>cells := (cells q)(p := (cells q p)\<lparr>state := Some v\<rparr>),
       jobs := jobs q @ (if Suc p < next_id q then [Suc p] else [])\<rparr>"
  unfolding settle_def using filter_single[of "next_id q" "derived_from q p" "Suc p"]
    derived_shape[OF assms] by simp

lemma sync_chain:
  assumes "chain q m"
  shows "sync fn q =
     (next_id q,
      q\<lparr>cells := (cells q)
           (next_id q := \<lparr>state = None, reaction = Some (promise q, Fn fn)\<rparr>,
            Suc (next_id q) := \<lparr>state = None, reaction = Some (next_id q, ErrorHandler)\<rparr>),
        next_id := next_id q + 2,
        jobs := jobs q @ (if m = next_id q then [next_id q] else []),
        promise := Suc (next_id q)\<rparr>)"
proof -
  have "state (cells q (promise q)) \<noteq> None \<longleftrightarrow> m = next_id q"
    using assms unfolding chain_def
    by (metis Suc_eq_plus1 Suc_leI le_neq_implies_less lessI less_Suc_eq_le not_less_eq_eq)
  then show ?thesis
    by (auto simp: sync_def then_promise_def Let_def)
qed

lemma last_not_fn:
  assumes "chain q m"
  shows "fn_at q (promise q) = None"
proof (rule ccontr)
  assume "fn_at q (promise q) \<noteq> None"
  moreover have "promise q < next_id q" "Suc (promise q) = next_id q"
    using assms by (auto simp: chain_def)
  ultimately show False using assms unfolding chain_def by (metis less_irrefl)
qed

lemma sync_cells:
  assumes "chain q m"
  shows "next_id (snd (sync fn q)) = next_id q + 2"
    and "promise (snd (sync fn q)) = Suc (next_id q)"
    and "jobs (snd (sync fn q)) = jobs q @ (if m = next_id q then [next_id q] else [])"
    and "d < next_id q \<Longrightarrow> cells (snd (sync fn q)) d = cells q d"
    and "cells (snd (sync fn q)) (next_id q) = \<lparr>state = None, reaction = Some (next_id q - 1, Fn fn)\<rparr>"
    and "cells (snd (sync fn q)) (Suc (next_id q)) = \<lparr>state = None, reaction = Some (next_id q, ErrorHandler)\<rparr>"
    and "target (snd (sync fn q)) = target q" and "trace (snd (sync fn q)) = trace q"
    and "onError (snd (sync fn q)) = onError q" and "has_parent (snd (sync fn q)) = has_parent q"
    and "fst (sync fn q) = next_id q"
  using assms unfolding sync_chain[OF assms] by (auto simp: chain_def)

lemma chain_sync:
  assumes "chain q m"
  shows "chain (snd (sync fn q)) m"
proof -
  define n where "n = next_id q"
  define q' where "q' = snd (sync fn q)"
  note s = sync_cells[OF assms, where fn = fn, folded q'_def n_def]
  have c: "shape q" "0 < m" "m \<le> n" "promise q + 1 = n"
    "\<And>d. d < m \<Longrightarrow> state (cells q d) \<noteq> None"
    "\<And>d. m \<le> d \<Longrightarrow> d < n \<Longrightarrow> state (cells q d) = None"
    "jobs q = (if m < n then [m] else [])"
    "\<And>d. d < m \<Longrightarrow> fn_at q d = None \<Longrightarrow> state (cells q d) = Some Fulfilled"
    "\<And>d. d < n \<Longrightarrow> fn_at q d \<noteq> None \<Longrightarrow>
            Suc d < n \<and> reaction (cells q (Suc d)) = Some (d, ErrorHandler)"
    using assms unfolding chain_def n_def by blast+
  have l: "fn_at q (n - 1) = None" using last_not_fn[OF assms] c(4) by auto
  have fn: "fn_at q' d = (if d < n then fn_at q d else if d = n then Some fn else None)"
    if "d < n + 2" for d
    using that s(4)[of d] s(5) s(6) by (auto simp: fn_at_def less_Suc_eq)
  have "shape q'"
    unfolding shape_def
  proof (intro conjI allI impI)
    show "reaction (cells q' 0) = None" using c(1,2,3) s(4)[of 0] by (simp add: shape_def)
    fix d assume d: "0 < d \<and> d < next_id q'"
    then consider "d < n" | "d = n" | "d = Suc n" using s(1) by linarith
    then show "\<exists>h. reaction (cells q' d) = Some (d - 1, h)"
      using c(1) d s(4)[of d] s(5) s(6) by cases (auto simp: shape_def n_def)
  qed
  moreover have "\<forall>d. d < m \<longrightarrow> state (cells q' d) \<noteq> None"
    using c(3,5) s(4) by auto
  moreover have "\<forall>d. m \<le> d \<and> d < next_id q' \<longrightarrow> state (cells q' d) = None"
  proof (intro allI impI)
    fix d assume d: "m \<le> d \<and> d < next_id q'"
    then consider "d < n" | "d = n" | "d = Suc n" using s(1) by linarith
    then show "state (cells q' d) = None"
      using c(6)[of d] d s(4)[of d] s(5) s(6) by cases auto
  qed
  moreover have "jobs q' = (if m < next_id q' then [m] else [])"
    using s(1,3) c(3,7) by auto
  moreover have "\<forall>d. d < m \<and> fn_at q' d = None \<longrightarrow> state (cells q' d) = Some Fulfilled"
    using c(3,8) s(4) fn by auto
  moreover have "\<forall>d. d < next_id q' \<and> fn_at q' d \<noteq> None \<longrightarrow>
            Suc d < next_id q' \<and> reaction (cells q' (Suc d)) = Some (d, ErrorHandler)"
  proof (intro allI impI)
    fix d assume d: "d < next_id q' \<and> fn_at q' d \<noteq> None"
    then consider "d < n" | "d = n" using s(1) fn[of d] by (auto split: if_splits)
    then show "Suc d < next_id q' \<and> reaction (cells q' (Suc d)) = Some (d, ErrorHandler)"
    proof cases
      case 1
      then have "Suc d < n \<and> reaction (cells q (Suc d)) = Some (d, ErrorHandler)"
        using c(9)[of d] d fn[of d] by auto
      then show ?thesis using s(1) s(4)[of "Suc d"] by auto
    next
      case 2
      then show ?thesis using s(1) s(6) by auto
    qed
  qed
  ultimately show ?thesis
    unfolding chain_def q'_def[symmetric] using c(2,3) s(1,2) by auto
qed

lemma source_fulfilled:
  assumes "chain q m" "m < next_id q" "fn_at q m \<noteq> None"
  shows "state (cells q (m - 1)) = Some Fulfilled"
proof -
  have "fn_at q (m - 1) = None"
  proof (rule ccontr)
    assume "fn_at q (m - 1) \<noteq> None"
    then have "reaction (cells q (Suc (m - 1))) = Some (m - 1, ErrorHandler)"
      using assms unfolding chain_def by (meson less_imp_diff_less)
    then show False using assms by (auto simp: chain_def fn_at_def)
  qed
  then show ?thesis using assms by (auto simp: chain_def)
qed

lemma chain_stepI:
  assumes c: "chain q m" and m: "m < next_id q"
    and n: "next_id q \<le> next_id q'" and p: "promise q' + 1 = next_id q'"
    and old: "\<And>d. d < next_id q \<Longrightarrow> d \<noteq> m \<Longrightarrow> cells q' d = cells q d"
    and r: "reaction (cells q' m) = reaction (cells q m)"
    and v: "state (cells q' m) = Some v" "fn_at q m = None \<Longrightarrow> v = Fulfilled"
    and new: "\<And>d. next_id q \<le> d \<Longrightarrow> d < next_id q' \<Longrightarrow>
        cells q' d = \<lparr>state = None, reaction = Some (d - 1, Ignore)\<rparr>"
    and j: "jobs q' = (if Suc m < next_id q' then [Suc m] else [])"
  shows "chain q' (Suc m)"
proof -
  have c': "shape q" "0 < m"
    "\<And>d. d < m \<Longrightarrow> state (cells q d) \<noteq> None"
    "\<And>d. m \<le> d \<Longrightarrow> d < next_id q \<Longrightarrow> state (cells q d) = None"
    "\<And>d. d < m \<Longrightarrow> fn_at q d = None \<Longrightarrow> state (cells q d) = Some Fulfilled"
    "\<And>d. d < next_id q \<Longrightarrow> fn_at q d \<noteq> None \<Longrightarrow>
            Suc d < next_id q \<and> reaction (cells q (Suc d)) = Some (d, ErrorHandler)"
    using c unfolding chain_def by blast+
  have re: "reaction (cells q' d) = reaction (cells q d)" if "d < next_id q" for d
    using that old[of d] r by (cases "d = m") auto
  have fn: "fn_at q' d = (if d < next_id q then fn_at q d else None)" if "d < next_id q'" for d
    using that re[of d] new[of d] by (auto simp: fn_at_def)
  have "shape q'"
    unfolding shape_def
  proof (intro conjI allI impI)
    show "reaction (cells q' 0) = None" using c'(1) m re[of 0] by (simp add: shape_def)
    fix d assume d: "0 < d \<and> d < next_id q'"
    show "\<exists>h. reaction (cells q' d) = Some (d - 1, h)"
    proof (cases "d < next_id q")
      case True
      then show ?thesis using c'(1) d re[of d] by (auto simp: shape_def)
    next
      case False
      then show ?thesis using new[of d] d by simp
    qed
  qed
  moreover have "\<forall>d. d < Suc m \<longrightarrow> state (cells q' d) \<noteq> None"
    using c'(3) old v(1) m by (auto simp: less_Suc_eq)
  moreover have "\<forall>d. Suc m \<le> d \<and> d < next_id q' \<longrightarrow> state (cells q' d) = None"
  proof (intro allI impI)
    fix d assume d: "Suc m \<le> d \<and> d < next_id q'"
    show "state (cells q' d) = None"
    proof (cases "d < next_id q")
      case True
      then show ?thesis using c'(4)[of d] old[of d] d by auto
    next
      case False
      then show ?thesis using new[of d] d by simp
    qed
  qed
  moreover have "\<forall>d. d < Suc m \<and> fn_at q' d = None \<longrightarrow> state (cells q' d) = Some Fulfilled"
  proof (intro allI impI)
    fix d assume d: "d < Suc m \<and> fn_at q' d = None"
    then have f: "fn_at q d = None" using fn[of d] m n by auto
    show "state (cells q' d) = Some Fulfilled"
    proof (cases "d = m")
      case True
      then show ?thesis using v f by simp
    next
      case False
      then show ?thesis using c'(5)[of d] old[of d] d f m by auto
    qed
  qed
  moreover have "\<forall>d. d < next_id q' \<and> fn_at q' d \<noteq> None \<longrightarrow>
            Suc d < next_id q' \<and> reaction (cells q' (Suc d)) = Some (d, ErrorHandler)"
  proof (intro allI impI)
    fix d assume d: "d < next_id q' \<and> fn_at q' d \<noteq> None"
    then have "d < next_id q" "fn_at q d \<noteq> None" using fn[of d] by (auto split: if_splits)
    then have "Suc d < next_id q \<and> reaction (cells q (Suc d)) = Some (d, ErrorHandler)"
      using c'(6) by blast
    then show "Suc d < next_id q' \<and> reaction (cells q' (Suc d)) = Some (d, ErrorHandler)"
      using re[of "Suc d"] n by auto
  qed
  ultimately show ?thesis
    unfolding chain_def using m n p j by auto
qed

lemma tick_job:
  assumes "chain q m" "m < next_id q"
  shows "tick exec env q = run_job exec env m (q\<lparr>jobs := []\<rparr>)"
  using assms by (simp add: tick_def chain_def)

lemma reaction_m:
  assumes "chain q m" "m < next_id q"
  shows "\<exists>h. reaction (cells q m) = Some (m - 1, h)"
  using assms unfolding chain_def shape_def by blast

lemma state_pred:
  assumes "chain q m"
  shows "\<exists>v. state (cells q (m - 1)) = Some v"
  using assms unfolding chain_def by (metis diff_less not_None_eq zero_less_one)

lemma shape_upd [simp]:
  "shape (q\<lparr>jobs := j\<rparr>) = shape q" "shape (q\<lparr>target := s\<rparr>) = shape q"
  "shape (q\<lparr>trace := t\<rparr>) = shape q" "shape (q\<lparr>onError := es\<rparr>) = shape q"
  "shape (q\<lparr>promise := r\<rparr>) = shape q"
  by (simp_all add: shape_def)

lemma tick_fn:
  assumes c: "chain q m" and m: "m < next_id q"
    and r: "reaction (cells q m) = Some (m - 1, Fn fn)"
    and e: "exec env fn (target q) = (err, s)"
  shows "tick exec env q =
     q\<lparr>jobs := (if Suc m < next_id q then [Suc m] else []), target := s,
       trace := trace q @ [(fn, case err of None \<Rightarrow> Fulfilled | Some e \<Rightarrow> Rejected e)],
       cells := (cells q)(m := (cells q m)
          \<lparr>state := Some (case err of None \<Rightarrow> Fulfilled | Some e \<Rightarrow> Rejected e)\<rparr>)\<rparr>"
proof -
  have "fn_at q m \<noteq> None" using r by (simp add: fn_at_def)
  then have f: "state (cells q (m - 1)) = Some Fulfilled" by (rule source_fulfilled[OF c m])
  have sh: "shape q" using c by (simp add: chain_def)
  show ?thesis
    unfolding tick_job[OF c m] run_job_def using r f e
    by (simp add: Let_def settle_shape sh)
qed

lemma tick_plain:
  assumes c: "chain q m" and m: "m < next_id q"
    and r: "reaction (cells q m) = Some (m - 1, h)"
    and h: "h = Ignore \<or> (h = ErrorHandler \<and> state (cells q (m - 1)) = Some Fulfilled)"
  shows "tick exec env q =
     q\<lparr>jobs := (if Suc m < next_id q then [Suc m] else []),
       cells := (cells q)(m := (cells q m)\<lparr>state := Some Fulfilled\<rparr>)\<rparr>"
proof -
  obtain v where v: "state (cells q (m - 1)) = Some v" using state_pred[OF c] by blast
  have sh: "shape q" using c by (simp add: chain_def)
  show ?thesis
    unfolding tick_job[OF c m] run_job_def using h r v
    by (cases v) (auto simp: settle_shape sh)
qed

lemma tick_heal:
  assumes c: "chain q m" and m: "m < next_id q"
    and r: "reaction (cells q m) = Some (m - 1, ErrorHandler)"
    and v: "state (cells q (m - 1)) = Some (Rejected e)"
  shows "tick exec env q =
     q\<lparr>jobs := [Suc m],
       cells := (cells q)
         (next_id q := \<lparr>state = None, reaction = Some (promise q, Ignore)\<rparr>,
          m := (cells q m)\<lparr>state := Some Fulfilled\<rparr>),
       next_id := Suc (next_id q), promise := next_id q,
       onError := (if has_parent q then onError q @ [e] else onError q)\<rparr>"
proof -
  have sh: "shape q" using c by (simp add: chain_def)
  have p: "state (cells q (promise q)) = None"
    using c m unfolding chain_def
    by (metis Suc_eq_plus1 Suc_leI add_diff_cancel_right' diff_le_mono lessI)
  have sh': "shape (q\<lparr>jobs := [],
       cells := (cells q)(next_id q := \<lparr>state = None, reaction = Some (promise q, Ignore)\<rparr>),
       next_id := Suc (next_id q)\<rparr>)"
    using c unfolding chain_def shape_def by (auto simp: less_Suc_eq)
  have o: "on_error e (q\<lparr>jobs := []\<rparr>) =
     q\<lparr>jobs := [],
       cells := (cells q)(next_id q := \<lparr>state = None, reaction = Some (promise q, Ignore)\<rparr>),
       next_id := Suc (next_id q), promise := next_id q,
       onError := (if has_parent q then onError q @ [e] else onError q)\<rparr>"
    by (simp add: on_error_def then_promise_def Let_def p)
  have sh'': "shape (on_error e (q\<lparr>jobs := []\<rparr>))"
    unfolding o using sh' by (simp add: shape_def)
  show ?thesis
    unfolding tick_job[OF c m] run_job_def
    using m r v by (simp add: settle_shape[OF sh''] ) (simp add: o)
qed

lemma apply_tasks_snoc:
  assumes "apply_tasks exec xs s0 = (vs, s)" "exec env fn s = (err, s')"
  shows "apply_tasks exec (xs @ [(fn, env)]) s0
     = (vs @ [case err of None \<Rightarrow> Fulfilled | Some e \<Rightarrow> Rejected e], s')"
  using assms
  by (induction xs arbitrary: s0 vs) (auto split: prod.splits)

lemma queue_inv_new: "queue_inv exec s0 [] [] (new_queue parent s0) 1"
  using chain_new[of parent s0]
  by (auto simp: queue_inv_def executed_def is_fn_def fn_at_def new_queue_def failures_def
      pending_error_def)

lemma filter_cong_upt:
  assumes "\<And>d. d < n \<Longrightarrow> P d = Q d"
  shows "filter P [0 ..< n] = filter Q [0 ..< n]"
  using assms by (intro filter_cong) auto

lemma executed_cong:
  assumes "\<And>d. d < m \<Longrightarrow> cells q' d = cells q d"
  shows "executed q' m = executed q m"
proof -
  have f: "fn_at q' d = fn_at q d" if "d < m" for d using assms[OF that] by (simp add: fn_at_def)
  have "filter (is_fn q') [0 ..< m] = filter (is_fn q) [0 ..< m]"
    by (rule filter_cong_upt) (simp add: is_fn_def f)
  then show ?thesis unfolding executed_def using f assms by (auto intro!: map_cong)
qed

lemma queue_inv_sync:
  assumes "queue_inv exec s0 cs rs q m"
  shows "queue_inv exec s0 (cs @ [fn]) (rs @ [fst (sync fn q)]) (snd (sync fn q)) m"
proof -
  have c: "chain q m" using assms by (simp add: queue_inv_def)
  note s = sync_cells[OF c, where fn = fn]
  have mn: "0 < m" "m \<le> next_id q" using c by (auto simp: chain_def)
  have f: "fn_at (snd (sync fn q)) d = fn_at q d" if "d < next_id q" for d
    using s(4)[OF that] by (simp add: fn_at_def)
  have f1: "fn_at (snd (sync fn q)) (next_id q) = Some fn"
    and f2: "fn_at (snd (sync fn q)) (Suc (next_id q)) = None"
    using s(5,6) by (simp_all add: fn_at_def)
  have ex: "executed (snd (sync fn q)) m = executed q m"
    using mn s(4) by (intro executed_cong) auto
  have fl: "filter (is_fn (snd (sync fn q))) [0 ..< next_id q] = filter (is_fn q) [0 ..< next_id q]"
    by (rule filter_cong_upt) (simp add: is_fn_def f)
  have rs: "filter (is_fn (snd (sync fn q))) [0 ..< next_id (snd (sync fn q))]
      = filter (is_fn q) [0 ..< next_id q] @ [next_id q]"
    using fl f1 f2 by (simp add: s(1) is_fn_def)
  have cs: "map (\<lambda>d. the (fn_at (snd (sync fn q)) d)) (filter (is_fn q) [0 ..< next_id q])
      = map (\<lambda>d. the (fn_at q d)) (filter (is_fn q) [0 ..< next_id q])"
    using f by (intro map_cong) auto
  have pe: "pending_error (snd (sync fn q)) m = pending_error q m"
    using mn s(4)[of "m - 1"] by (simp add: pending_error_def)
  have a: "trace q = executed q m" "rs = filter (is_fn q) [0 ..< next_id q]"
    "cs = map (\<lambda>d. the (fn_at q d)) rs"
    "has_parent q \<longrightarrow> failures (trace q) = onError q @ pending_error q m"
    "\<exists>envs. length envs = length (trace q)
            \<and> apply_tasks exec (zip (map fst (trace q)) envs) s0 = (map snd (trace q), target q)"
    using assms unfolding queue_inv_def by blast+
  show ?thesis
    unfolding queue_inv_def s(7,8,9,10,11) ex pe rs
  proof (intro conjI)
    show "chain (snd (sync fn q)) m" by (rule chain_sync[OF c])
    show "trace q = executed q m" by (rule a(1))
    show "rs @ [next_id q] = filter (is_fn q) [0 ..< next_id q] @ [next_id q]" using a(2) by simp
    show "cs @ [fn] = map (\<lambda>d. the (fn_at (snd (sync fn q)) d)) (rs @ [next_id q])"
      using a(2,3) cs f1 by simp
    show "has_parent q \<longrightarrow> failures (trace q) = onError q @ pending_error q m" by (rule a(4))
    show "\<exists>envs. length envs = length (trace q)
            \<and> apply_tasks exec (zip (map fst (trace q)) envs) s0 = (map snd (trace q), target q)"
      by (rule a(5))
  qed
qed

lemma executed_Suc:
  "executed q (Suc m) =
     executed q m @ (if is_fn q m then [(the (fn_at q m), the (state (cells q m)))] else [])"
  by (simp add: executed_def)

lemma failures_snoc:
  "failures (tr @ [(fn, v)]) = failures tr @ (case v of Fulfilled \<Rightarrow> [] | Rejected e \<Rightarrow> [e])"
  by (simp add: failures_def)

lemma filter_less_upt: "n \<le> n' \<Longrightarrow> filter (\<lambda>d. d < n) [0 ..< n'] = [0 ..< n]"
proof (induction n')
  case 0
  then show ?case by simp
next
  case (Suc n')
  then show ?case by (cases "n = Suc n'") auto
qed

lemma filter_less_upt2: "a \<le> n \<Longrightarrow> n \<le> n' \<Longrightarrow> filter (\<lambda>d. d < n) [a ..< n'] = [a ..< n]"
proof (induction n')
  case 0
  then show ?case by simp
next
  case (Suc n')
  then show ?case by (cases "n = Suc n'") auto
qed

lemma queue_inv_stepI:
  assumes inv: "queue_inv exec s0 cs rs q m" and m: "m < next_id q"
    and n: "next_id q \<le> next_id q'" and p: "promise q' + 1 = next_id q'"
    and old: "\<And>d. d < next_id q \<Longrightarrow> d \<noteq> m \<Longrightarrow> cells q' d = cells q d"
    and r: "reaction (cells q' m) = reaction (cells q m)"
    and v: "state (cells q' m) = Some v"
    and new: "\<And>d. next_id q \<le> d \<Longrightarrow> d < next_id q' \<Longrightarrow>
        cells q' d = \<lparr>state = None, reaction = Some (d - 1, Ignore)\<rparr>"
    and j: "jobs q' = (if Suc m < next_id q' then [Suc m] else [])"
    and hp: "has_parent q' = has_parent q"
    and grow: "next_id q' = next_id q + (if fn_at q m = None then length (pending_error q m) else 0)"
    and step: "(\<exists>fn err. fn_at q m = Some fn \<and> exec env fn (target q) = (err, target q')
                  \<and> v = (case err of None \<Rightarrow> Fulfilled | Some e \<Rightarrow> Rejected e)
                  \<and> trace q' = trace q @ [(fn, v)] \<and> onError q' = onError q)
           \<or> (fn_at q m = None \<and> v = Fulfilled \<and> trace q' = trace q \<and> target q' = target q
               \<and> (has_parent q \<longrightarrow> onError q' = onError q @ pending_error q m))"
  shows "queue_inv exec s0 cs rs q' (Suc m) \<and> work q' (Suc m) < work q m"
proof -
  have c: "chain q m" using inv by (simp add: queue_inv_def)
  have a: "trace q = executed q m" "rs = filter (is_fn q) [0 ..< next_id q]"
    "cs = map (\<lambda>d. the (fn_at q d)) rs"
    "has_parent q \<longrightarrow> failures (trace q) = onError q @ pending_error q m"
    "\<exists>envs. length envs = length (trace q)
            \<and> apply_tasks exec (zip (map fst (trace q)) envs) s0 = (map snd (trace q), target q)"
    using inv unfolding queue_inv_def by blast+
  have vf: "fn_at q m = None \<Longrightarrow> v = Fulfilled" using step by auto
  have c': "chain q' (Suc m)"
    by (rule chain_stepI[OF c m n p old r v vf new j])
  have re: "reaction (cells q' d) = reaction (cells q d)" if "d < next_id q" for d
    using that old[of d] r by (cases "d = m") auto
  have fn: "fn_at q' d = fn_at q d" if "d < next_id q" for d
    using re[OF that] by (simp add: fn_at_def)
  have fn': "fn_at q' d = None" if "next_id q \<le> d" "d < next_id q'" for d
    using new[OF that] by (simp add: fn_at_def)
  have isf: "is_fn q' d = (d < next_id q \<and> is_fn q d)" if "d < next_id q'" for d
    using fn[of d] fn'[of d] that by (cases "d < next_id q") (auto simp: is_fn_def)
  have "filter (is_fn q') [0 ..< next_id q'] = filter (\<lambda>d. d < next_id q \<and> is_fn q d) [0 ..< next_id q']"
    by (rule filter_cong_upt) (simp add: isf)
  also have "\<dots> = filter (is_fn q) (filter (\<lambda>d. d < next_id q) [0 ..< next_id q'])"
    by (simp add: conj_commute)
  also have "filter (\<lambda>d. d < next_id q) [0 ..< next_id q'] = [0 ..< next_id q]"
    using n by (rule filter_less_upt)
  finally have rs': "filter (is_fn q') [0 ..< next_id q'] = rs" using a(2) by simp
  have cs': "map (\<lambda>d. the (fn_at q' d)) rs = cs"
    unfolding a(3) using fn a(2) by (intro map_cong) auto
  have exm: "executed q' m = executed q m"
    using old m by (intro executed_cong) auto
  have ex: "executed q' (Suc m) = executed q m @ (if is_fn q m then [(the (fn_at q m), v)] else [])"
    unfolding executed_Suc exm using isf[of m] fn[of m] m n v by auto
  have pe': "pending_error q' (Suc m) = (case v of Fulfilled \<Rightarrow> [] | Rejected e \<Rightarrow> [e])"
    using v by (simp add: pending_error_def split: settled.splits)
  have "filter (is_fn q') [Suc m ..< next_id q'] = filter (\<lambda>d. d < next_id q \<and> is_fn q d) [Suc m ..< next_id q']"
    by (rule filter_cong) (auto simp: isf)
  also have "\<dots> = filter (is_fn q) (filter (\<lambda>d. d < next_id q) [Suc m ..< next_id q'])"
    by (simp add: conj_commute)
  also have "filter (\<lambda>d. d < next_id q) [Suc m ..< next_id q'] = [Suc m ..< next_id q]"
    using n m by (rule_tac filter_less_upt2) auto
  finally have cnt: "filter (is_fn q') [Suc m ..< next_id q'] = filter (is_fn q) [Suc m ..< next_id q]" .
  have split: "filter (is_fn q) [m ..< next_id q]
      = (if is_fn q m then [m] else []) @ filter (is_fn q) [Suc m ..< next_id q]"
    using m by (simp add: upt_conv_Cons)
  have pe1: "length (pending_error q' (Suc m)) \<le> 1"
    by (simp add: pe' split: settled.splits)
  have W: "work q' (Suc m) < work q m"
  proof (cases "fn_at q m")
    case None
    then have "v = Fulfilled" using vf by simp
    then have "pending_error q' (Suc m) = []" by (simp add: pe')
    then show ?thesis
      unfolding work_def cnt split using None grow m by (simp add: is_fn_def)
  next
    case (Some fn)
    then show ?thesis
      unfolding work_def cnt split using grow m pe1 by (simp add: is_fn_def)
  qed
  from step have "queue_inv exec s0 cs rs q' (Suc m)"
  proof (elim disjE exE conjE)
    fix fn err
    assume s: "fn_at q m = Some fn" "exec env fn (target q) = (err, target q')"
      "v = (case err of None \<Rightarrow> Fulfilled | Some e \<Rightarrow> Rejected e)"
      "trace q' = trace q @ [(fn, v)]" "onError q' = onError q"
    have "is_fn q m" using s(1) by (simp add: is_fn_def)
    then have "state (cells q (m - 1)) = Some Fulfilled"
      using source_fulfilled[OF c m] by (simp add: is_fn_def)
    then have pe: "pending_error q m = []" by (simp add: pending_error_def)
    obtain envs where e: "length envs = length (trace q)"
      "apply_tasks exec (zip (map fst (trace q)) envs) s0 = (map snd (trace q), target q)"
      using a(5) by blast
    have "apply_tasks exec (zip (map fst (trace q')) (envs @ [env])) s0
        = (map snd (trace q'), target q')"
      using apply_tasks_snoc[OF e(2) s(2)] e(1) s(3,4) by simp
    moreover have "length (envs @ [env]) = length (trace q')" using e(1) s(4) by simp
    ultimately have E: "\<exists>envs. length envs = length (trace q')
            \<and> apply_tasks exec (zip (map fst (trace q')) envs) s0 = (map snd (trace q'), target q')"
      by blast
    show "queue_inv exec s0 cs rs q' (Suc m)"
      unfolding queue_inv_def
    proof (intro conjI)
      show "chain q' (Suc m)" by (rule c')
      show "trace q' = executed q' (Suc m)" using ex s(1,4) a(1) \<open>is_fn q m\<close> by simp
      show "rs = filter (is_fn q') [0 ..< next_id q']" using rs' by simp
      show "cs = map (\<lambda>d. the (fn_at q' d)) rs" using cs' by simp
      show "has_parent q' \<longrightarrow> failures (trace q') = onError q' @ pending_error q' (Suc m)"
        using a(4) hp pe by (simp add: s(4,5) failures_snoc pe')
      show "\<exists>envs. length envs = length (trace q')
            \<and> apply_tasks exec (zip (map fst (trace q')) envs) s0 = (map snd (trace q'), target q')"
        by (rule E)
    qed
  next
    assume s: "fn_at q m = None" "v = Fulfilled" "trace q' = trace q" "target q' = target q"
      "has_parent q \<longrightarrow> onError q' = onError q @ pending_error q m"
    have nf: "\<not> is_fn q m" using s(1) by (simp add: is_fn_def)
    show "queue_inv exec s0 cs rs q' (Suc m)"
      unfolding queue_inv_def
    proof (intro conjI)
      show "chain q' (Suc m)" by (rule c')
      show "trace q' = executed q' (Suc m)" using ex nf a(1) s(3) by simp
      show "rs = filter (is_fn q') [0 ..< next_id q']" using rs' by simp
      show "cs = map (\<lambda>d. the (fn_at q' d)) rs" using cs' by simp
      show "has_parent q' \<longrightarrow> failures (trace q') = onError q' @ pending_error q' (Suc m)"
        using a(4) hp s(2,3,5) by (simp add: pe')
      show "\<exists>envs. length envs = length (trace q')
            \<and> apply_tasks exec (zip (map fst (trace q')) envs) s0 = (map snd (trace q'), target q')"
        using a(5) s(3,4) by simp
    qed
  qed
  then show ?thesis using W by simp
qed

lemma queue_inv_tick:
  assumes inv: "queue_inv exec s0 cs rs q m" and m: "m < next_id q"
  shows "queue_inv exec s0 cs rs (tick exec env q) (Suc m)
     \<and> work (tick exec env q) (Suc m) < work q m"
proof -
  have c: "chain q m" using inv by (simp add: queue_inv_def)
  have pr: "promise q + 1 = next_id q" using c by (simp add: chain_def)
  obtain h where r: "reaction (cells q m) = Some (m - 1, h)" using reaction_m[OF c m] by blast
  obtain v0 where v0: "state (cells q (m - 1)) = Some v0" using state_pred[OF c] by blast
  have nf: "state (cells q (m - 1)) = Some Fulfilled" if "h = Ignore"
  proof -
    have "fn_at q (m - 1) = None"
    proof (rule ccontr)
      assume "fn_at q (m - 1) \<noteq> None"
      then have "reaction (cells q (Suc (m - 1))) = Some (m - 1, ErrorHandler)"
        using c m unfolding chain_def by (meson less_imp_diff_less)
      then show False using c r that by (auto simp: chain_def)
    qed
    then show ?thesis using c by (auto simp: chain_def)
  qed
  show ?thesis
  proof (cases h)
    case (Fn fn)
    obtain err s where e: "exec env fn (target q) = (err, s)" by (cases "exec env fn (target q)")
    note t = tick_fn[where exec = exec and env = env, OF c m r[unfolded Fn] e]
    show ?thesis
      by (rule queue_inv_stepI[OF inv m, where v = "case err of None \<Rightarrow> Fulfilled | Some e \<Rightarrow> Rejected e"
            and env = env])
         (use r Fn e pr in \<open>auto simp: t fn_at_def\<close>)
  next
    case ErrorHandler
    show ?thesis
    proof (cases v0)
      case Fulfilled
      note t = tick_plain[OF c m r, of exec env] 
      have pe: "pending_error q m = []" using v0 Fulfilled by (simp add: pending_error_def)
      show ?thesis
        by (rule queue_inv_stepI[OF inv m, where v = Fulfilled and env = env])
           (use r ErrorHandler v0 Fulfilled pr pe in \<open>auto simp: t fn_at_def\<close>)
    next
      case (Rejected e)
      note t = tick_heal[OF c m r[unfolded ErrorHandler] v0[unfolded Rejected], of exec env]
      have pe: "pending_error q m = [e]" using v0 Rejected by (simp add: pending_error_def)
      show ?thesis
        by (rule queue_inv_stepI[OF inv m, where v = Fulfilled and env = env])
           (use r ErrorHandler m pr pe in \<open>auto simp: t fn_at_def less_Suc_eq\<close>)
    qed
  next
    case Ignore
    note t = tick_plain[OF c m r, of exec env]
    have pe: "pending_error q m = []" using nf[OF Ignore] by (simp add: pending_error_def)
    show ?thesis
      by (rule queue_inv_stepI[OF inv m, where v = Fulfilled and env = env])
         (use r Ignore pr pe in \<open>auto simp: t fn_at_def\<close>)
  qed
qed

lemma tick_idle:
  assumes "chain q m" "\<not> m < next_id q"
  shows "tick exec env q = q"
  using assms by (simp add: tick_def chain_def)

lemma work_idle:
  assumes "chain q m" "\<not> m < next_id q"
  shows "work q m = 0"
proof -
  have mn: "m = next_id q" "promise q = m - 1" "0 < m" using assms by (auto simp: chain_def)
  have "fn_at q (m - 1) = None" using last_not_fn[OF assms(1)] mn by simp
  then have "state (cells q (m - 1)) = Some Fulfilled"
    using assms(1) mn unfolding chain_def by (metis diff_less zero_less_one)
  then show ?thesis using mn by (simp add: work_def pending_error_def)
qed

lemma work_zero:
  assumes "chain q m" "work q m = 0"
  shows "m = next_id q"
  using assms by (auto simp: work_def chain_def)

lemma drain:
  assumes "queue_inv exec s0 cs rs q m" "work q m \<le> length envs"
  shows "queue_inv exec s0 cs rs (foldl (\<lambda>q env. tick exec env q) q envs)
           (next_id (foldl (\<lambda>q env. tick exec env q) q envs))"
  using assms
proof (induction envs arbitrary: q m)
  case Nil
  then have "m = next_id q" using work_zero[of q m] by (simp add: queue_inv_def)
  then show ?case using Nil by simp
next
  case (Cons env envs)
  have c: "chain q m" using Cons.prems by (simp add: queue_inv_def)
  show ?case
  proof (cases "m < next_id q")
    case True
    note t = queue_inv_tick[OF Cons.prems(1) True, of env]
    have "work (tick exec env q) (Suc m) \<le> length envs" using t Cons.prems(2) by simp
    then show ?thesis using Cons.IH[of "tick exec env q" "Suc m"] t by simp
  next
    case False
    then show ?thesis
      using Cons.IH[of q m] Cons.prems(1) tick_idle[OF c False] work_idle[OF c False] by simp
  qed
qed

lemma queue_inv_run:
  assumes "queue_inv exec s0 cs rs q m" "run exec evs (rs, q) = (rs', q')"
  shows "\<exists>m'. queue_inv exec s0 (cs @ calls evs) rs' q' m'"
  using assms
proof (induction evs arbitrary: cs rs q m)
  case Nil
  then show ?case by auto
next
  case (Cons ev evs)
  show ?case
  proof (cases ev)
    case (Call fn)
    have "queue_inv exec s0 (cs @ [fn]) (rs @ [fst (sync fn q)]) (snd (sync fn q)) m"
      by (rule queue_inv_sync[OF Cons.prems(1)])
    moreover have "run exec evs (rs @ [fst (sync fn q)], snd (sync fn q)) = (rs', q')"
      using Cons.prems(2) Call by (simp add: split_beta Let_def)
    ultimately show ?thesis using Cons.IH Call by fastforce
  next
    case (Tick env)
    have r: "run exec evs (rs, tick exec env q) = (rs', q')"
      using Cons.prems(2) Tick by simp
    have c: "chain q m" using Cons.prems by (simp add: queue_inv_def)
    show ?thesis
    proof (cases "m < next_id q")
      case True
      then show ?thesis
        using Cons.IH[OF _ r] queue_inv_tick[OF Cons.prems(1) True, of env] Tick by auto
    next
      case False
      then show ?thesis
        using Cons.IH[OF _ r] Cons.prems(1) tick_idle[OF c False, of exec env] Tick by auto
    qed
  qed
qed

lemma inv_split:
  assumes "queue_inv exec s0 cs rs q m"
  shows "rs = filter (is_fn q) [0 ..< m] @ filter (is_fn q) [m ..< next_id q]"
proof -
  have "m \<le> next_id q" using assms by (simp add: queue_inv_def chain_def)
  then have "[0 ..< next_id q] = [0 ..< m] @ [m ..< next_id q]"
    by (metis le_add_diff_inverse upt_add_eq_append zero_le)
  then show ?thesis using assms by (simp add: queue_inv_def)
qed

lemma inv_prefix:
  assumes "queue_inv exec s0 cs rs q m"
  shows "map fst (trace q) = take (length (trace q)) cs"
proof -
  have t: "trace q = executed q m" and cs: "cs = map (\<lambda>d. the (fn_at q d)) rs"
    using assms by (simp_all add: queue_inv_def)
  show ?thesis
    unfolding cs inv_split[OF assms] t executed_def by (simp add: comp_def)
qed

lemma inv_futures:
  assumes "queue_inv exec s0 cs rs q m"
  shows "map (\<lambda>r. state (cells q r)) rs
     = map (\<lambda>tv. Some (snd tv)) (trace q) @ replicate (length cs - length (trace q)) None"
proof -
  have c: "chain q m" and t: "trace q = executed q m"
    and cs: "cs = map (\<lambda>d. the (fn_at q d)) rs"
    using assms by (simp_all add: queue_inv_def)
  let ?A = "filter (is_fn q) [0 ..< m]" and ?B = "filter (is_fn q) [m ..< next_id q]"
  have a: "map (\<lambda>r. state (cells q r)) ?A = map (\<lambda>tv. Some (snd tv)) (trace q)"
    unfolding t executed_def using c by (auto simp: chain_def comp_def)
  have b: "map (\<lambda>r. state (cells q r)) ?B = replicate (length ?B) None"
    using c by (auto simp: chain_def map_replicate_const[symmetric] intro!: map_cong)
  have l: "length ?B = length cs - length (trace q)"
    unfolding cs inv_split[OF assms] t executed_def by simp
  show ?thesis
    unfolding inv_split[OF assms] using a b l by simp
qed

lemma inv_length:
  assumes "queue_inv exec s0 cs rs q m"
  shows "length rs = length cs"
  using assms by (simp add: queue_inv_def)

lemma inv_errors:
  assumes "queue_inv exec s0 cs rs q m" "has_parent q"
  shows "\<exists>p. failures (trace q) = onError q @ p \<and> length p \<le> 1"
proof -
  have "failures (trace q) = onError q @ pending_error q m"
    using assms unfolding queue_inv_def by blast
  moreover have "length (pending_error q m) \<le> 1"
    by (simp add: pending_error_def split: option.splits settled.splits)
  ultimately show ?thesis by blast
qed

lemma inv_sequential:
  assumes "queue_inv exec s0 cs rs q m"
  shows "\<exists>envs. length envs = length (trace q)
            \<and> apply_tasks exec (zip (map fst (trace q)) envs) s0 = (map snd (trace q), target q)"
  using assms unfolding queue_inv_def by blast

lemma inv_quiescent:
  assumes "queue_inv exec s0 cs rs q (next_id q)"
  shows "map fst (trace q) = cs" and "jobs q = []"
    and "has_parent q \<Longrightarrow> onError q = failures (trace q)"
    and "map (\<lambda>r. state (cells q r)) rs = map (\<lambda>tv. Some (snd tv)) (trace q)"
proof -
  have c: "chain q (next_id q)" using assms by (simp add: queue_inv_def)
  have "rs = filter (is_fn q) [0 ..< next_id q]" "trace q = executed q (next_id q)"
    "cs = map (\<lambda>d. the (fn_at q d)) rs"
    using assms by (simp_all add: queue_inv_def)
  then show 1: "map fst (trace q) = cs" by (simp add: executed_def comp_def)
  show "jobs q = []" using c by (simp add: chain_def)
  have "work q (next_id q) = 0" using work_idle[OF c] by simp
  then have pe: "pending_error q (next_id q) = []" by (simp add: work_def)
  have "has_parent q \<longrightarrow> failures (trace q) = onError q @ pending_error q (next_id q)"
    using assms unfolding queue_inv_def by blast
  then show "has_parent q \<Longrightarrow> onError q = failures (trace q)"
    using pe by simp
  show "map (\<lambda>r. state (cells q r)) rs = map (\<lambda>tv. Some (snd tv)) (trace q)"
    using inv_futures[OF assms] 1 by (metis append_Nil2 diff_self_eq_0 length_map replicate_0)
qed

lemma has_parent_tick: "has_parent (tick exec env q) = has_parent q"
  by (auto simp: tick_def run_job_def settle_def on_error_def then_promise_def Let_def
      split: list.splits option.splits prod.splits settled.splits handler.splits)

lemma has_parent_ticks: "has_parent (foldl (\<lambda>q env. tick exec env q) q envs) = has_parent q"
  by (induction envs arbitrary: q) (simp_all add: has_parent_tick)

lemma has_parent_sync: "has_parent (snd (sync fn q)) = has_parent q"
  by (simp add: sync_def then_promise_def Let_def split: prod.splits)

lemma has_parent_run:
  "run exec evs (rs, q) = (rs', q') \<Longrightarrow> has_parent q' = has_parent q"
proof (induction evs arbitrary: rs q)
  case Nil
  then show ?case by simp
next
  case (Cons ev evs)
  show ?case
  proof (cases ev)
    case (Call fn)
    then have "run exec evs (rs @ [fst (sync fn q)], snd (sync fn q)) = (rs', q')"
      using Cons.prems by (simp add: split_beta Let_def)
    then show ?thesis using Cons.IH has_parent_sync[of fn q] by blast
  next
    case (Tick env)
    then have "run exec evs (rs, tick exec env q) = (rs', q')" using Cons.prems by simp
    then show ?thesis using Cons.IH has_parent_tick[of exec env q] by blast
  qed
qed

lemmas queue_defs = sync_def then_promise_def tick_def run_job_def settle_def derived_from_def
  new_queue_def on_error_def Let_def

lemma MutableFile_exec_failure:
  "MutableFile_exec env t ws = (Some e, ws') \<Longrightarrow> ws' = ws"
  by (cases ws; cases t)
     (auto simp: MutableFile_exec_def MutableFile_doWrite_def MutableFile_doFlush_def Let_def
        split: if_splits sum.splits)

lemma Segmented_exec_failure:
  "Segmented_exec env t ws = (Some e, ws') \<Longrightarrow> ws' = ws"
  by (cases ws; cases t)
     (auto simp: Segmented_exec_def Segmented_doWrite_def Segmented_doFlush_def Let_def
        split: if_splits sum.splits)

text \<open>
  Claim C1. For one writer and any sequence of \<^verbatim>\<open>write\<close>/\<^verbatim>\<open>flush\<close> calls, interleaved
  in any way with the turns of the event loop: the tasks that have run are the first
  calls, in call order; the writer and its storage are in the state that running these
  tasks one after the other produces; the promise each call returned is settled with
  the outcome of its own task once that task has run, and pending before; and after
  enough further turns every call has run, whenever the earlier promises settled.
\<close>

theorem writer_queue_order:
  assumes "run exec evs ([], new_queue parent s0) = (rs, q)"
  shows "map fst (trace q) = take (length (trace q)) (calls evs)
    \<and> (\<exists>envs. length envs = length (trace q)
          \<and> apply_tasks exec (zip (map fst (trace q)) envs) s0 = (map snd (trace q), target q))
    \<and> length rs = length (calls evs)
    \<and> map (\<lambda>r. state (cells q r)) rs
        = map (\<lambda>tv. Some (snd tv)) (trace q)
          @ replicate (length (calls evs) - length (trace q)) None
    \<and> (\<exists>n. \<forall>envs. n \<le> length envs \<longrightarrow>
          (let q' = foldl (\<lambda>q env. tick exec env q) q envs
           in map fst (trace q') = calls evs
            \<and> map (\<lambda>r. state (cells q' r)) rs = map (\<lambda>tv. Some (snd tv)) (trace q')))"
proof -
  obtain m where inv: "queue_inv exec s0 (calls evs) rs q m"
    using queue_inv_run[OF queue_inv_new assms] by auto
  have "\<forall>envs. work q m \<le> length envs \<longrightarrow>
          (let q' = foldl (\<lambda>q env. tick exec env q) q envs
           in map fst (trace q') = calls evs
            \<and> map (\<lambda>r. state (cells q' r)) rs = map (\<lambda>tv. Some (snd tv)) (trace q'))"
    using inv_quiescent(1,4)[OF drain[OF inv]] by (simp add: Let_def)
  then show ?thesis
    using inv_prefix[OF inv] inv_sequential[OF inv] inv_length[OF inv] inv_futures[OF inv]
    by blast
qed

theorem writer_queue_order_witness:
  "(let q = snd (run (\<lambda>env fn s. case env of IoOk \<Rightarrow> (None, s @ [fn]) | IoFail \<Rightarrow> (Some IoError, s))
       [Call (1::nat), Call 2, Tick IoOk]
       ([], new_queue True ([]::nat list)))
    in trace q = [(1, Fulfilled)] \<and> target q = [1]
       \<and> map (\<lambda>r. state (cells q r)) [1, 3] = [Some Fulfilled, None]
       \<and> map fst (trace q) = take (length (trace q)) [1, 2])"
proof -
  let ?exec = "\<lambda>env fn s. case env of IoOk \<Rightarrow> (None, s @ [fn]) | IoFail \<Rightarrow> (Some IoError, s)"
  let ?evs = "[Call (1::nat), Call 2, Tick IoOk]"
  let ?q = "snd (run ?exec ?evs ([], new_queue True ([]::nat list)))"
  have a: "trace ?q = [(1, Fulfilled)] \<and> target ?q = [1]
    \<and> map (\<lambda>r. state (cells ?q r)) [1, 3] = [Some Fulfilled, None]"
    by (simp add: queue_defs)
  have "map fst (trace ?q) = take (length (trace ?q)) (calls ?evs)"
    by (rule conjunct1[OF writer_queue_order[where exec = ?exec, OF prod.collapse[symmetric]]])
  then have "map fst (trace ?q) = take (length (trace ?q)) [1, 2]" by simp
  then show ?thesis unfolding Let_def using a by blast
qed

text \<open>
  Claim C3. A writer with a parent storage. When a \<^verbatim>\<open>doWrite\<close> or \<^verbatim>\<open>doFlush\<close>
  fails, the failure is dispatched on \<^verbatim>\<open>parent.onError\<close> exactly once (the events are
  the errors of the failed tasks, one each and in order, the last one at most one
  turn late), the promise of the failed call is rejected with that error, and every
  call of the same writer is still executed, on the state the tasks before it left:
  the queue ends with no job waiting. On both backends a task that fails leaves the
  writer and the storage as they were.
\<close>

theorem writer_queue_failure:
  assumes "run exec evs ([], new_queue True s0) = (rs, q)"
  shows "(\<exists>p. failures (trace q) = onError q @ p \<and> length p \<le> 1)
    \<and> (\<exists>n. \<forall>envs. n \<le> length envs \<longrightarrow>
          (let q' = foldl (\<lambda>q env. tick exec env q) q envs
           in onError q' = failures (trace q')
            \<and> map fst (trace q') = calls evs \<and> jobs q' = []
            \<and> map (\<lambda>r. state (cells q' r)) rs = map (\<lambda>tv. Some (snd tv)) (trace q')
            \<and> (\<exists>envs'. length envs' = length (calls evs)
                 \<and> apply_tasks exec (zip (calls evs) envs') s0 = (map snd (trace q'), target q'))))
    \<and> (\<forall>env t ws e ws'. MutableFile_exec env t ws = (Some e, ws') \<longrightarrow> ws' = ws)
    \<and> (\<forall>env t ws e ws'. Segmented_exec env t ws = (Some e, ws') \<longrightarrow> ws' = ws)"
proof -
  obtain m where inv: "queue_inv exec s0 (calls evs) rs q m"
    using queue_inv_run[OF queue_inv_new assms] by auto
  have hp: "has_parent q" using has_parent_run[OF assms] by (simp add: new_queue_def)
  have "onError q' = failures (trace q')
            \<and> map fst (trace q') = calls evs \<and> jobs q' = []
            \<and> map (\<lambda>r. state (cells q' r)) rs = map (\<lambda>tv. Some (snd tv)) (trace q')
            \<and> (\<exists>envs'. length envs' = length (calls evs)
                 \<and> apply_tasks exec (zip (calls evs) envs') s0 = (map snd (trace q'), target q'))"
    if "work q m \<le> length envs" and "q' = foldl (\<lambda>q env. tick exec env q) q envs" for envs q'
  proof -
    have i: "queue_inv exec s0 (calls evs) rs q' (next_id q')"
      unfolding that(2) by (rule drain[OF inv that(1)])
    have h: "has_parent q'" unfolding that(2) using hp by (simp add: has_parent_ticks)
    note z = inv_quiescent[OF i]
    have "\<exists>envs'. length envs' = length (trace q')
            \<and> apply_tasks exec (zip (map fst (trace q')) envs') s0 = (map snd (trace q'), target q')"
      by (rule inv_sequential[OF i])
    then have "\<exists>envs'. length envs' = length (calls evs)
                 \<and> apply_tasks exec (zip (calls evs) envs') s0 = (map snd (trace q'), target q')"
      using z(1) by (metis length_map)
    then show ?thesis using z h by simp
  qed
  then have "\<exists>n. \<forall>envs. n \<le> length envs \<longrightarrow>
          (let q' = foldl (\<lambda>q env. tick exec env q) q envs
           in onError q' = failures (trace q')
            \<and> map fst (trace q') = calls evs \<and> jobs q' = []
            \<and> map (\<lambda>r. state (cells q' r)) rs = map (\<lambda>tv. Some (snd tv)) (trace q')
            \<and> (\<exists>envs'. length envs' = length (calls evs)
                 \<and> apply_tasks exec (zip (calls evs) envs') s0 = (map snd (trace q'), target q')))"
    unfolding Let_def by blast
  then show ?thesis
    using inv_errors[OF inv hp] MutableFile_exec_failure Segmented_exec_failure by blast
qed


theorem writer_queue_failure_witness:
  "(let q = snd (run (\<lambda>env fn s. case env of IoOk \<Rightarrow> (None, s @ [fn]) | IoFail \<Rightarrow> (Some IoError, s))
       [Call (1::nat), Tick IoFail, Tick IoOk, Call 2, Tick IoOk, Tick IoOk]
       ([], new_queue True ([]::nat list)))
    in trace q = [(1, Rejected IoError), (2, Fulfilled)] \<and> onError q = [IoError]
       \<and> target q = [2] \<and> (\<exists>p. failures (trace q) = onError q @ p \<and> length p \<le> 1))"
proof -
  let ?exec = "\<lambda>env fn s. case env of IoOk \<Rightarrow> (None, s @ [fn]) | IoFail \<Rightarrow> (Some IoError, s)"
  let ?q = "snd (run ?exec [Call (1::nat), Tick IoFail, Tick IoOk, Call 2, Tick IoOk, Tick IoOk]
       ([], new_queue True ([]::nat list)))"
  have a: "trace ?q = [(1, Rejected IoError), (2, Fulfilled)] \<and> onError ?q = [IoError]
    \<and> target ?q = [2]"
    by (simp add: queue_defs)
  have "\<exists>p. failures (trace ?q) = onError ?q @ p \<and> length p \<le> 1"
    by (rule conjunct1[OF writer_queue_failure[where exec = ?exec, OF prod.collapse[symmetric]]])
  then show ?thesis unfolding Let_def using a by blast
qed

section \<open>Properties of the segmented backend\<close>







lemma sentry_step:
  assumes "writer_flushSentry (fst ws) \<le> flushSentry (snd ws)"
  shows "writer_flushSentry (fst (Segmented_step ws ev)) \<le> flushSentry (snd (Segmented_step ws ev))"
proof (cases ev)
  case (RunTask t env)
  then show ?thesis using assms
    by (cases ws; cases t; cases env)
       (auto simp: Segmented_exec_def Segmented_doWrite_def Segmented_doFlush_def Let_def
          split: sum.splits)
next
  case (Delete env)
  then show ?thesis using assms
    by (cases env) (auto simp: Segmented_delete_def Segmented_static_delete_def Let_def)
qed

lemma sentry_steps:
  assumes "writer_flushSentry (fst ws) \<le> flushSentry (snd ws)"
  shows "writer_flushSentry (fst (foldl Segmented_step ws evs))
     \<le> flushSentry (snd (foldl Segmented_step ws evs))"
  using assms by (induction evs arbitrary: ws) (simp_all add: sentry_step)

lemma sentry_step_less:
  assumes "writer_flushSentry (fst ws) < flushSentry (snd ws)"
  shows "writer_flushSentry (fst (Segmented_step ws ev)) < flushSentry (snd (Segmented_step ws ev))"
proof (cases ev)
  case (RunTask t env)
  then show ?thesis using assms
    by (cases ws; cases t; cases env)
       (auto simp: Segmented_exec_def Segmented_doWrite_def Segmented_doFlush_def Let_def
          split: sum.splits)
next
  case (Delete env)
  then show ?thesis using assms
    by (cases env) (auto simp: Segmented_delete_def Segmented_static_delete_def Let_def)
qed

lemma sentry_steps_less:
  assumes "writer_flushSentry (fst ws) < flushSentry (snd ws)"
  shows "writer_flushSentry (fst (foldl Segmented_step ws evs))
     < flushSentry (snd (foldl Segmented_step ws evs))"
  using assms by (induction evs arbitrary: ws) (simp_all add: sentry_step_less)

lemma flushSentry_delete: "flushSentry (snd (Segmented_delete env st)) = flushSentry st + 1"
  by (cases env) (simp_all add: Segmented_delete_def Segmented_static_delete_def Let_def)



text \<open>
  Claim C8. Segmented backend. For a writer created before a \<^verbatim>\<open>delete()\<close> call,
  whatever ran before and after the call, a \<^verbatim>\<open>doFlush\<close> executed after it returns
  without an error and changes neither the writer nor the storage (no segment is
  stored). When the queue runs that task, the promise \<^verbatim>\<open>flush()\<close> returned is
  fulfilled and nothing is dispatched on \<^verbatim>\<open>onError\<close>.
\<close>

theorem delete_then_flush:
  assumes before: "ws = foldl Segmented_step (Segmented_writer st0 sp, st0) evs"
    and after: "ws' = foldl Segmented_step (fst ws, snd (Segmented_delete env0 (snd ws))) evs'"
  shows "Segmented_doFlush env ws' = (None, ws')
    \<and> (jobs q = r # js \<and> reaction (cells q r) = Some (p, Fn DoFlush)
         \<and> state (cells q p) = Some Fulfilled \<and> target q = ws' \<longrightarrow>
       state (cells (tick Segmented_exec env q) r) = Some Fulfilled
       \<and> onError (tick Segmented_exec env q) = onError q
       \<and> target (tick Segmented_exec env q) = ws')"
proof -
  have "writer_flushSentry (fst ws) \<le> flushSentry (snd ws)"
    unfolding before by (rule sentry_steps) (simp add: Segmented_writer_def)
  then have "writer_flushSentry (fst ws) < flushSentry (snd (Segmented_delete env0 (snd ws)))"
    by (simp add: flushSentry_delete)
  then have "writer_flushSentry (fst ws') < flushSentry (snd ws')"
    unfolding after using sentry_steps_less[of "(fst ws, snd (Segmented_delete env0 (snd ws)))" evs']
    by simp
  then have f: "Segmented_doFlush env ws' = (None, ws')"
    by (cases ws') (simp add: Segmented_doFlush_def)
  then show ?thesis
    by (auto simp: tick_def run_job_def Segmented_exec_def settle_def Let_def)
qed

theorem delete_then_flush_witness:
  "Segmented_doFlush IoOk
      (\<lparr>startPosition = 0, writtenSize = 1, bufferPosition = 0, bufferData = [[1]],
         writer_flushSentry = 0\<rparr>,
       \<lparr>storage_id = 7, database = \<lparr>data = [], recovery = []\<rparr>, flushSentry = 1\<rparr>)
    = (None,
       \<lparr>startPosition = 0, writtenSize = 1, bufferPosition = 0, bufferData = [[1]],
         writer_flushSentry = 0\<rparr>,
       \<lparr>storage_id = 7, database = \<lparr>data = [], recovery = []\<rparr>, flushSentry = 1\<rparr>)
   \<and> state (cells (tick Segmented_exec IoOk (snd (Writer_flush (new_queue True
      (\<lparr>startPosition = 0, writtenSize = 1, bufferPosition = 0, bufferData = [[1]],
         writer_flushSentry = 0\<rparr>,
       \<lparr>storage_id = 7, database = \<lparr>data = [], recovery = []\<rparr>, flushSentry = 1\<rparr>))))) 1)
     = Some Fulfilled
   \<and> onError (tick Segmented_exec IoOk (snd (Writer_flush (new_queue True
      (\<lparr>startPosition = 0, writtenSize = 1, bufferPosition = 0, bufferData = [[1]],
         writer_flushSentry = 0\<rparr>,
       \<lparr>storage_id = 7, database = \<lparr>data = [], recovery = []\<rparr>, flushSentry = 1\<rparr>))))) = []"
  using delete_then_flush[where
      ?st0.0 = "\<lparr>storage_id = 7, database = \<lparr>data = [], recovery = []\<rparr>, flushSentry = 0\<rparr>"
      and sp = 0 and evs = "[RunTask (DoWrite [1]) IoOk]" and ?env0.0 = IoOk and evs' = "[]"
      and env = IoOk and r = 1 and js = "[]" and p = 0
      and q = "snd (Writer_flush (new_queue True
      (\<lparr>startPosition = 0, writtenSize = 1, bufferPosition = 0, bufferData = [[1]],
         writer_flushSentry = 0\<rparr>,
       \<lparr>storage_id = 7, database = \<lparr>data = [], recovery = []\<rparr>, flushSentry = 1\<rparr>)))",
      OF refl refl]
  by (simp add: Segmented_writer_def Segmented_exec_def Segmented_doWrite_def
      Segmented_delete_def Segmented_static_delete_def store_delete_def
      Writer_flush_def sync_def then_promise_def new_queue_def Let_def)




end
